theory Spec2Isabelle
  imports Main "HOL-Library.Char_ord" "HOL-Library.List_Lexorder" "HOL-Library.Sublist"
    "HOL-Library.AList" "HOL-Library.Word"
begin

section \<open>The email scraper: aslocation.py and keyword001.py\<close>

text \<open>
  The two scripts share their code: \<open>load_checkpoint\<close>, \<open>save_checkpoint\<close>,
  \<open>initialize_driver\<close> and \<open>scrape_google_emails\<close> differ only in the dictionary key and
  the search query built from a work item. They are modelled once, with the script as a
  parameter.

  Python strings are modelled as \<open>string\<close>: sequences of code points below 256. The
  regular expression, \<open>strip\<close> and \<open>quote\<close> only distinguish ASCII characters from
  the rest, so larger code points would behave like the non-ASCII characters present here.

  The browser, the file system and the \<open>json\<close> module are outside the repository. They
  are a parameter of the model: a \<open>world\<close> says what each external call returns or
  raises, and the program's calls are recorded in a trace.
\<close>

subsection \<open>The text extractor\<close>

text \<open>
  \<^verbatim>\<open>emails = set(re.findall(
      r'[a-zA-Z0-9._%+-]+@[a-zA-Z0-9.-]+\.(?!png|jpg|jpeg)[a-zA-Z]{2,}', page_html))
  email_results[location] = sorted(list(emails))\<close>

  The pattern is embedded as a backtracking matcher in continuation-passing style, one
  combinator per construct of the pattern, in the order Python's engine tries the
  alternatives: a greedy repetition first takes as many characters as it can and gives them
  back one at a time while the rest of the pattern fails.
\<close>

definition is_alpha :: "char \<Rightarrow> bool" where
  "is_alpha c = ((CHR ''a'' \<le> c \<and> c \<le> CHR ''z'') \<or> (CHR ''A'' \<le> c \<and> c \<le> CHR ''Z''))"

definition is_alnum :: "char \<Rightarrow> bool" where
  "is_alnum c = (is_alpha c \<or> (CHR ''0'' \<le> c \<and> c \<le> CHR ''9''))"

text \<open>The character classes \<^verbatim>\<open>[a-zA-Z0-9._%+-]\<close> and \<^verbatim>\<open>[a-zA-Z0-9.-]\<close>.\<close>

definition is_local :: "char \<Rightarrow> bool" where
  "is_local c = (is_alnum c \<or> c \<in> set ''._%+-'')"

definition is_domain :: "char \<Rightarrow> bool" where
  "is_domain c = (is_alnum c \<or> c \<in> set ''.-'')"

text \<open>
  \<open>rep p n k\<close> is the greedy repetition \<^verbatim>\<open>[p]{n,}\<close> followed by the rest \<open>k\<close> of the
  pattern; a continuation returns the input left after the whole match.
\<close>

fun rep :: "(char \<Rightarrow> bool) \<Rightarrow> nat \<Rightarrow> (string \<Rightarrow> string option) \<Rightarrow> string \<Rightarrow> string option" where
  "rep p n k [] = (if n = 0 then k [] else None)"
| "rep p n k (c # cs) =
     (if p c then
        (case rep p (n - 1) k cs of
           Some r \<Rightarrow> Some r
         | None \<Rightarrow> if n = 0 then k (c # cs) else None)
      else if n = 0 then k (c # cs) else None)"

fun lit :: "char \<Rightarrow> (string \<Rightarrow> string option) \<Rightarrow> string \<Rightarrow> string option" where
  "lit a k [] = None"
| "lit a k (c # cs) = (if c = a then k cs else None)"

text \<open>The negative lookahead \<^verbatim>\<open>(?!a1|a2|...)\<close>: it consumes nothing.\<close>

definition not_ahead :: "string list \<Rightarrow> (string \<Rightarrow> string option) \<Rightarrow> string \<Rightarrow> string option" where
  "not_ahead alts k s = (if \<exists>a \<in> set alts. prefix a s then None else k s)"

text \<open>A match of the whole pattern at the start of \<open>s\<close>; the result is the rest of \<open>s\<close>.\<close>

definition match_here :: "string \<Rightarrow> string option" where
  "match_here s =
     rep is_local 1 (lit CHR ''@'' (rep is_domain 1 (lit CHR ''.''
       (not_ahead [''png'', ''jpg'', ''jpeg''] (rep is_alpha 2 Some))))) s"

lemma rep_split:
  "rep p n k s = Some r \<Longrightarrow>
     \<exists>u v. s = u @ v \<and> n \<le> length u \<and> (\<forall>c \<in> set u. p c) \<and> k v = Some r"
proof (induction s arbitrary: n)
  case Nil
  then show ?case by (auto split: if_splits)
next
  case (Cons c cs)
  show ?case
  proof (cases "p c \<and> rep p (n - 1) k cs = Some r")
    case True
    then obtain u v where "cs = u @ v" "n - 1 \<le> length u" "\<forall>c \<in> set u. p c" "k v = Some r"
      using Cons.IH by blast
    with True show ?thesis by (intro exI[of _ "c # u"] exI[of _ v]) auto
  next
    case False
    with Cons.prems have "n = 0 \<and> k (c # cs) = Some r"
      by (auto split: if_splits option.splits)
    then show ?thesis by (intro exI[of _ "[]"] exI[of _ "c # cs"]) auto
  qed
qed

lemma lit_split: "lit a k s = Some r \<Longrightarrow> \<exists>v. s = a # v \<and> k v = Some r"
  by (cases s) (auto split: if_splits)

text \<open>
  What a match looks like: a local part, \<open>@\<close>, a domain, a dot and a label of at least two
  letters that does not begin with \<open>png\<close>, \<open>jpg\<close> or \<open>jpeg\<close>.
\<close>

definition address :: "string \<Rightarrow> bool" where
  "address m = (\<exists>l d t. m = l @ ''@'' @ d @ ''.'' @ t
      \<and> l \<noteq> [] \<and> list_all is_local l
      \<and> d \<noteq> [] \<and> list_all is_domain d
      \<and> 2 \<le> length t \<and> list_all is_alpha t
      \<and> \<not> prefix ''png'' t \<and> \<not> prefix ''jpg'' t \<and> \<not> prefix ''jpeg'' t)"

lemma match_here_split:
  assumes "match_here s = Some r"
  shows "\<exists>m. s = m @ r \<and> address m"
proof -
  from assms obtain l s1 where l: "s = l @ s1" "1 \<le> length l" "\<forall>c \<in> set l. is_local c"
    and 1: "lit CHR ''@'' (rep is_domain 1 (lit CHR ''.''
       (not_ahead [''png'', ''jpg'', ''jpeg''] (rep is_alpha 2 Some)))) s1 = Some r"
    unfolding match_here_def by (blast dest: rep_split)
  from 1 obtain s2 where s2: "s1 = CHR ''@'' # s2"
    and 2: "rep is_domain 1 (lit CHR ''.''
       (not_ahead [''png'', ''jpg'', ''jpeg''] (rep is_alpha 2 Some))) s2 = Some r"
    by (blast dest: lit_split)
  from 2 obtain d s3 where d: "s2 = d @ s3" "1 \<le> length d" "\<forall>c \<in> set d. is_domain c"
    and 3: "lit CHR ''.'' (not_ahead [''png'', ''jpg'', ''jpeg''] (rep is_alpha 2 Some)) s3 = Some r"
    by (blast dest: rep_split)
  from 3 obtain s4 where s4: "s3 = CHR ''.'' # s4"
    and 4: "not_ahead [''png'', ''jpg'', ''jpeg''] (rep is_alpha 2 Some) s4 = Some r"
    by (blast dest: lit_split)
  from 4 have na: "\<not> prefix ''png'' s4" "\<not> prefix ''jpg'' s4" "\<not> prefix ''jpeg'' s4"
    and 5: "rep is_alpha 2 Some s4 = Some r"
    by (auto simp: not_ahead_def split: if_splits)
  from 5 obtain t where t: "s4 = t @ r" "2 \<le> length t" "\<forall>c \<in> set t. is_alpha c"
    by (auto dest: rep_split)
  have np: "\<not> prefix ''png'' t" "\<not> prefix ''jpg'' t" "\<not> prefix ''jpeg'' t"
    using na t(1) by (auto dest: prefix_prefix)
  have "s = (l @ ''@'' @ d @ ''.'' @ t) @ r"
    using l(1) s2 d(1) s4 t(1) by simp
  moreover have "address (l @ ''@'' @ d @ ''.'' @ t)"
    unfolding address_def list_all_iff using l d t np by fastforce
  ultimately show ?thesis by blast
qed

lemma match_here_shorter: "match_here s = Some r \<Longrightarrow> length r < length s"
  by (auto dest!: match_here_split simp: address_def)

text \<open>
  \<open>re.findall\<close>: the matches from left to right, none overlapping another. The search
  resumes where the previous match ended; where no match starts, it moves on by one
  character. (The pattern has no group, so each item is the whole match, and it cannot match
  the empty string.)
\<close>

function findall :: "string \<Rightarrow> string list" where
  "findall s =
     (if s = [] then []
      else case match_here s of
             Some r \<Rightarrow> take (length s - length r) s # findall r
           | None \<Rightarrow> findall (tl s))"
  by pat_completeness auto
termination
  by (relation "measure length") (auto dest: match_here_shorter)

text \<open>
  \<open>sorted(list(set(...)))\<close>: the order in which Python lists a set is unspecified;
  sorting makes the result the sorted list of the set. Strings compare by code point, a
  proper prefix before its extensions.
\<close>

definition extract_emails :: "string \<Rightarrow> string list" where
  "extract_emails page_html = sorted_list_of_set (set (findall page_html))"

lemma findall_sound: "m \<in> set (findall s) \<Longrightarrow> sublist m s \<and> address m"
proof (induction s arbitrary: m rule: findall.induct)
  case (1 s)
  show ?case
  proof (cases "s = []")
    case True
    with "1.prems" show ?thesis by simp
  next
    case False
    show ?thesis
    proof (cases "match_here s")
      case None
      with False "1.prems" have "m \<in> set (findall (tl s))" by simp
      with "1.IH"(1)[OF False None, of m] have "sublist m (tl s)" "address m" by auto
      moreover have "sublist (tl s) s"
        using False by (cases s) (auto simp: sublist_def intro: exI[of _ "[hd s]"])
      ultimately show ?thesis by (blast intro: sublist_order.order_trans)
    next
      case (Some r)
      then obtain m0 where m0: "s = m0 @ r" "address m0" by (blast dest: match_here_split)
      then have tk: "take (length s - length r) s = m0" by simp
      from False Some "1.prems" tk have "m = m0 \<or> m \<in> set (findall r)" by auto
      then show ?thesis
      proof
        assume "m = m0"
        with m0 show ?thesis by (auto simp: sublist_def intro: exI[of _ "[]"])
      next
        assume "m \<in> set (findall r)"
        with "1.IH"(2)[OF False Some, of m] have "sublist m r" "address m" by auto
        moreover have "sublist r s" using m0(1) by (auto simp: sublist_def intro: exI[of _ m0])
        ultimately show ?thesis by (blast intro: sublist_order.order_trans)
      qed
    qed
  qed
qed

declare findall.simps [simp del]

subsection \<open>Values, exceptions and the trace\<close>

text \<open>
  What \<open>json.loads\<close> can return. The program's dictionary \<open>email_results\<close> is whatever
  the checkpoint file held, so it need not be a dictionary. A Python \<open>dict\<close> keeps its
  keys in insertion order: an association list. A float is carried by its 64 bits; the
  program never looks into a number.
\<close>

datatype json =
    JNull
  | JBool bool
  | JInt int
  | JFloat "64 word"
  | JStr string
  | JList "json list"
  | JDict "(string \<times> json) list"

text \<open>
  The exceptions the program can meet, all of them subclasses of \<open>Exception\<close>.
  \<open>WebDriverException\<close> stands for the class and its subclasses: the inner handler
  catches exactly these. \<open>OtherException\<close> is any other subclass of \<open>Exception\<close>.
\<close>

datatype exn =
    WebDriverException
  | JSONDecodeError
  | FileNotFoundError
  | TypeError
  | AttributeError
  | OtherException

text \<open>
  What a call into the browser can raise: one of the exceptions above, or a
  \<open>KeyboardInterrupt\<close>, which is no subclass of \<open>Exception\<close> and passes every
  \<^verbatim>\<open>except Exception\<close> and every \<^verbatim>\<open>except WebDriverException\<close>; it stands for the
  exceptions derived from \<open>BaseException\<close> alone (\<open>SystemExit\<close> is handled alike). The
  run spends its time in these calls and in the pauses between them; an interrupt that
  arrives in a pause is the interrupt of the call after it. The calls of
  \<open>load_checkpoint\<close>, \<open>save_checkpoint\<close> and \<open>initialize_driver\<close> are taken not to be
  interrupted.
\<close>

datatype raised = Ordinary exn | KeyboardInterrupt

text \<open>\<open>key in email_results\<close> and \<open>email_results[key] = value\<close>.\<close>

fun contains :: "string \<Rightarrow> json \<Rightarrow> exn + bool" where
  "contains key (JDict d) = Inr (key \<in> fst ` set d)"
| "contains key (JList l) = Inr (JStr key \<in> set l)"
| "contains key (JStr s) = Inr (sublist key s)"
| "contains key _ = Inl TypeError"

fun setitem :: "string \<Rightarrow> json \<Rightarrow> json \<Rightarrow> exn + json" where
  "setitem key v (JDict d) = Inr (JDict (AList.update key v d))"
| "setitem key v _ = Inl TypeError"

text \<open>
  The log lines, by the call that writes them, with the program values they interpolate
  (the text of an exception is left out).
\<close>

datatype level = INFO | ERROR

datatype message =
    CheckpointEmpty
  | CheckpointCorrupt
  | CheckpointLoadError
  | CheckpointSaved
  | CheckpointSaveError
  | DriverInitError
  | Skipping string
  | Searching string
  | ConstructedUrl string
  | Found nat string
  | Email string
  | WebDriverError string
  | RestartFailed
  | Restarted string
  | ScrapingError
  | BrowserClosed
  | NothingLoaded
  | AllDone nat
  | ScriptFailed

text \<open>
  The calls that leave the program. A session is named by a number. \<open>Get d key url\<close> is
  \<open>driver.get(url)\<close> on session \<open>d\<close> in the iteration for the work item with
  dictionary key \<open>key\<close>; \<open>Measure\<close> and \<open>ScrollTo\<close> are the two scripts of the scroll
  loop; \<open>Write r\<close> is \<open>save_checkpoint\<close> opening the file to dump \<open>r\<close>.
\<close>

datatype event =
    Started nat
  | StartFailed
  | Get nat string string
  | Measure nat
  | ScrollTo nat
  | Source nat
  | Quit nat
  | Write json
  | Log level message

subsection \<open>The world\<close>

text \<open>
  What \<open>initialize_driver\<close> meets: an extension file is missing (it raises
  \<open>FileNotFoundError\<close>), \<open>webdriver.Chrome\<close> raises (it logs and returns \<open>None\<close>), or a
  session starts.
\<close>

datatype start = MissingExtension | ChromeFails | ChromeStarts

text \<open>
  What \<open>save_checkpoint\<close> meets: the dump is written; \<open>open\<close> raises and the file is
  untouched; or \<open>open\<close> has emptied the file and the dump raises after \<open>n\<close> characters.
\<close>

datatype saving = Written | NotOpened | Truncated nat

text \<open>
  What the browser does in the iteration for one position of the work list: the result of
  \<open>driver.get\<close>, of the \<open>n\<close>-th measurement of \<open>document.body.scrollHeight\<close>, of
  the \<open>n\<close>-th \<open>window.scrollTo\<close>, of \<open>driver.page_source\<close>, of the save that follows,
  and, should the handler for \<open>WebDriverException\<close> run, of \<open>driver.quit()\<close> and of
  \<open>initialize_driver\<close> there.
\<close>

record visit =
  v_get :: "raised option"
  v_height :: "nat \<Rightarrow> raised + int"
  v_scroll :: "nat \<Rightarrow> raised option"
  v_source :: "raised + string"
  v_write :: saving
  v_quit :: "raised option"
  v_restart :: start

text \<open>
  The world of one run: the \<open>json\<close> module, whether the checkpoint file can be read, the
  first \<open>initialize_driver\<close>, the visits by position, the save on the way out after a
  failure, the \<open>driver.quit()\<close> of the \<open>finally\<close> clause; and for the main program
  whether the three input files exist and what the spreadsheet loader returns.
\<close>

record world =
  w_loads :: "string \<Rightarrow> exn + json"
  w_dumps :: "json \<Rightarrow> string"
  w_readable :: bool
  w_start :: start
  w_visit :: "nat \<Rightarrow> visit"
  w_abort_write :: saving
  w_final_quit :: "raised option"
  w_paths :: bool
  w_items :: "string list"

text \<open>
  The state: the two local variables of \<open>scrape_google_emails\<close> that its handlers read,
  the content of the checkpoint file (\<open>None\<close>: no such file), and the trace.
\<close>

record state =
  email_results :: json
  driver :: "nat option"
  disk :: "string option"
  trace :: "event list"

definition emit :: "event \<Rightarrow> state \<Rightarrow> state" where
  "emit e st = st\<lparr>trace := trace st @ [e]\<rparr>"

definition logging :: "level \<Rightarrow> message \<Rightarrow> state \<Rightarrow> state" where
  "logging l m st = emit (Log l m) st"

subsection \<open>The checkpoint store\<close>

text \<open>
  \<open>str.strip()\<close>: the characters Python counts as whitespace, among the code points
  below 256.
\<close>

definition is_space :: "char \<Rightarrow> bool" where
  "is_space c = ((of_char c :: nat) \<in> set [9, 10, 11, 12, 13, 28, 29, 30, 31, 32, 133, 160])"

definition strip :: "string \<Rightarrow> string" where
  "strip s = rev (dropWhile is_space (rev (dropWhile is_space s)))"

text \<open>
  \<^verbatim>\<open>def load_checkpoint(checkpoint_file=CHECKPOINT_FILE):
      if os.path.exists(checkpoint_file):
          try:
              with open(checkpoint_file, "r") as f:
                  content = f.read().strip()
                  if not content:
                      logging.info(...)
                      return {}
                  return json.loads(content)
          except json.JSONDecodeError as e:
              logging.error(...)
              return {}
          except Exception as e:
              logging.error(...)
              return {}
      return {}\<close>

  \<open>read_checkpoint\<close> is the body of the \<open>try\<close>; \<open>load_checkpoint\<close> adds the test
  for the file and the two handlers.
\<close>

definition read_checkpoint :: "world \<Rightarrow> string \<Rightarrow> state \<Rightarrow> (exn + json) \<times> state" where
  "read_checkpoint w raw st =
     (if \<not> w_readable w then (Inl OtherException, st)
      else let content = strip raw in
        if content = [] then (Inr (JDict []), logging INFO CheckpointEmpty st)
        else (w_loads w content, st))"

definition load_checkpoint :: "world \<Rightarrow> state \<Rightarrow> json \<times> state" where
  "load_checkpoint w st =
     (case disk st of
        None \<Rightarrow> (JDict [], st)
      | Some raw \<Rightarrow>
          (case read_checkpoint w raw st of
             (Inr r, st') \<Rightarrow> (r, st')
           | (Inl e, st') \<Rightarrow>
               if e = JSONDecodeError then (JDict [], logging ERROR CheckpointCorrupt st')
               else (JDict [], logging ERROR CheckpointLoadError st')))"

text \<open>
  \<^verbatim>\<open>def save_checkpoint(email_results, checkpoint_file=CHECKPOINT_FILE):
      try:
          with open(checkpoint_file, "w") as f:
              json.dump(email_results, f, indent=4)
          logging.info(...)
      except Exception as e:
          logging.error(...)\<close>
\<close>

definition save_checkpoint :: "world \<Rightarrow> saving \<Rightarrow> json \<Rightarrow> state \<Rightarrow> state" where
  "save_checkpoint w how r st =
     (case how of
        Written \<Rightarrow>
          logging INFO CheckpointSaved (emit (Write r) (st\<lparr>disk := Some (w_dumps w r)\<rparr>))
      | NotOpened \<Rightarrow>
          logging ERROR CheckpointSaveError (emit (Write r) st)
      | Truncated n \<Rightarrow>
          logging ERROR CheckpointSaveError
            (emit (Write r) (st\<lparr>disk := Some (take n (w_dumps w r))\<rparr>)))"

subsection \<open>The session\<close>

text \<open>
  \<^verbatim>\<open>def initialize_driver(extension_path, extension_path2):
      if not os.path.exists(extension_path):
          raise FileNotFoundError(...)
      if not os.path.exists(extension_path2):
          raise FileNotFoundError(...)
      ...
      try:
          driver = webdriver.Chrome(service=Service(), options=chrome_options)
          return driver
      except Exception as e:
          logging.error(...)
          return None\<close>

  A new session is named by the length of the trace at its start, a number no earlier
  session has.
\<close>

definition initialize_driver :: "start \<Rightarrow> state \<Rightarrow> (exn + nat option) \<times> state" where
  "initialize_driver how st =
     (case how of
        MissingExtension \<Rightarrow> (Inl FileNotFoundError, st)
      | ChromeFails \<Rightarrow> (Inr None, logging ERROR DriverInitError (emit StartFailed st))
      | ChromeStarts \<Rightarrow> (Inr (Some (length (trace st))), emit (Started (length (trace st))) st))"

subsection \<open>Key, query and URL of a work item\<close>

datatype script = Aslocation | Keyword001

definition dq :: string where
  "dq = [CHR 0x22]"

text \<open>
  aslocation.py uses the location itself as the key; keyword001.py uses
  \<^verbatim>\<open>f"{keyword} | {location}"\<close> with \<^verbatim>\<open>location = "USA"\<close>.
\<close>

fun key_of :: "script \<Rightarrow> string \<Rightarrow> string" where
  "key_of Aslocation location = location"
| "key_of Keyword001 keyword = keyword @ '' | '' @ ''USA''"

fun query_of :: "script \<Rightarrow> string \<Rightarrow> string" where
  "query_of Aslocation location =
     ''site:linkedin.com construction in '' @ dq @ location @ dq @ '' '' @ dq @ ''email'' @ dq
       @ '' '' @ dq @ ''com'' @ dq @ '' -india''"
| "query_of Keyword001 keyword =
     ''site:linkedin.com '' @ keyword @ '' in '' @ dq @ ''USA'' @ dq @ '' '' @ dq @ ''email'' @ dq
       @ '' '' @ dq @ ''com'' @ dq @ '' -india''"

text \<open>
  \<open>urllib.parse.quote\<close> with its default \<open>safe='/'\<close>: letters, digits and \<open>_.-~/\<close>
  stay, every other character becomes \<open>%XX\<close> for each byte of its UTF-8 encoding.
\<close>

definition hex_digit :: "nat \<Rightarrow> char" where
  "hex_digit n = ''0123456789ABCDEF'' ! (n mod 16)"

definition percent :: "nat \<Rightarrow> string" where
  "percent b = [CHR ''%'', hex_digit (b div 16), hex_digit b]"

definition utf8 :: "char \<Rightarrow> nat list" where
  "utf8 c = (let n = of_char c in if n < 128 then [n] else [192 + n div 64, 128 + n mod 64])"

definition quote :: "string \<Rightarrow> string" where
  "quote s =
     concat (map (\<lambda>c. if is_alnum c \<or> c \<in> set ''_.-~/'' then [c]
                       else concat (map percent (utf8 c))) s)"

definition url_of :: "string \<Rightarrow> string" where
  "url_of query = ''https://www.google.com/search?q='' @ quote query @ ''&num=50''"

subsection \<open>The scroll loop\<close>

text \<open>
  \<^verbatim>\<open>last_height = driver.execute_script("return document.body.scrollHeight")
  while True:
      driver.execute_script("window.scrollTo(0, document.body.scrollHeight);")
      time.sleep(random.uniform(8, 12))
      new_height = driver.execute_script("return document.body.scrollHeight")
      if new_height == last_height:
          break
      last_height = new_height
      time.sleep(random.uniform(5, 7))\<close>

  The loop has no bound. The model runs at most \<open>fuel\<close> iterations and answers \<open>Stuck\<close>
  when they are used up: a loop that is \<open>Stuck\<close> for every \<open>fuel\<close> never ends. \<open>i\<close>
  counts the iterations done, so the next scroll is the \<open>i\<close>-th (from 0) and the next
  measurement the \<open>i+1\<close>-th. The pauses are not modelled.
\<close>

datatype outcome = Done | Failed raised | Stuck

fun scroll_loop :: "visit \<Rightarrow> nat \<Rightarrow> nat \<Rightarrow> nat \<Rightarrow> int \<Rightarrow> state \<Rightarrow> outcome \<times> state" where
  "scroll_loop v 0 d i last_height st = (Stuck, st)"
| "scroll_loop v (Suc fuel) d i last_height st =
     (case v_scroll v i of
        Some e \<Rightarrow> (Failed e, emit (ScrollTo d) st)
      | None \<Rightarrow>
          (case v_height v (Suc i) of
             Inl e \<Rightarrow> (Failed e, emit (Measure d) (emit (ScrollTo d) st))
           | Inr new_height \<Rightarrow>
               if new_height = last_height
               then (Done, emit (Measure d) (emit (ScrollTo d) st))
               else scroll_loop v fuel d (Suc i) new_height
                      (emit (Measure d) (emit (ScrollTo d) st))))"

subsection \<open>The orchestrator\<close>

text \<open>
  The body of the inner \<open>try\<close> (lines 138 to 161 of aslocation.py): load the page,
  scroll it to exhaustion, read its source, extract, store the result under the key, log,
  save. \<open>Found n key\<close> logs \<open>len(emails)\<close>, the size of the set; the lines that log each
  email follow the set's order, which Python leaves open: the model writes them in sorted
  order.
\<close>

definition process_item ::
    "world \<Rightarrow> nat \<Rightarrow> visit \<Rightarrow> string \<Rightarrow> string \<Rightarrow> state \<Rightarrow> outcome \<times> state" where
  "process_item w fuel v key url st =
     (case driver st of
        None \<Rightarrow> (Failed (Ordinary AttributeError), st)
      | Some d \<Rightarrow>
          (case v_get v of
             Some e \<Rightarrow> (Failed e, emit (Get d key url) st)
           | None \<Rightarrow>
               (case v_height v 0 of
                  Inl e \<Rightarrow> (Failed e, emit (Measure d) (emit (Get d key url) st))
                | Inr last_height \<Rightarrow>
                    (case scroll_loop v fuel d 0 last_height
                            (emit (Measure d) (emit (Get d key url) st)) of
                       (Failed e, st1) \<Rightarrow> (Failed e, st1)
                     | (Stuck, st1) \<Rightarrow> (Stuck, st1)
                     | (Done, st1) \<Rightarrow>
                         (case v_source v of
                            Inl e \<Rightarrow> (Failed e, emit (Source d) st1)
                          | Inr page_html \<Rightarrow>
                              (case setitem key (JList (map JStr (extract_emails page_html)))
                                      (email_results st1) of
                                 Inl e \<Rightarrow> (Failed (Ordinary e), emit (Source d) st1)
                               | Inr r \<Rightarrow>
                                   (Done,
                                    save_checkpoint w (v_write v) r
                                      (fold (\<lambda>email. logging INFO (Email email))
                                         (extract_emails page_html)
                                         (logging INFO
                                            (Found (card (set (findall page_html))) key)
                                            ((emit (Source d) st1)
                                               \<lparr>email_results := r\<rparr>))))))))))"

text \<open>
  The handler of the inner \<open>try\<close> (lines 163 to 173):

  \<^verbatim>\<open>except WebDriverException as e:
      logging.error(...)
      if driver:
          driver.quit()
      driver = initialize_driver(extension_path, extension_path2)
      if not driver:
          logging.error(...)
          save_checkpoint(email_results)
          return email_results
      logging.info(f"... WebDriver restarted. Retrying {location}.")
      continue\<close>

  An exception raised in the handler, by \<open>driver.quit()\<close> or by \<open>initialize_driver\<close>,
  leaves the loop for the outer handler; \<open>driver\<close> then still names the old session.
\<close>

datatype flow = Next | Return | Raised raised | Hang

definition recover :: "world \<Rightarrow> visit \<Rightarrow> string \<Rightarrow> state \<Rightarrow> flow \<times> state" where
  "recover w v key st =
     (let st1 = logging ERROR (WebDriverError key) st;
          (q, st2) = (case driver st1 of
                        None \<Rightarrow> (None, st1)
                      | Some d \<Rightarrow> (v_quit v, emit (Quit d) st1))
      in case q of
           Some e \<Rightarrow> (Raised e, st2)
         | None \<Rightarrow>
             (case initialize_driver (v_restart v) st2 of
                (Inl e, st3) \<Rightarrow> (Raised (Ordinary e), st3)
              | (Inr None, st3) \<Rightarrow>
                  (Return,
                   save_checkpoint w (w_abort_write w) (email_results st3)
                     (logging ERROR RestartFailed (st3\<lparr>driver := None\<rparr>)))
              | (Inr (Some d'), st3) \<Rightarrow>
                  (Next, logging INFO (Restarted key) (st3\<lparr>driver := Some d'\<rparr>))))"

text \<open>
  Lines 130 to 136: the query and the URL of the item, each logged.
\<close>

definition announce :: "script \<Rightarrow> string \<Rightarrow> state \<Rightarrow> state" where
  "announce sc item st =
     logging INFO (ConstructedUrl (url_of (query_of sc item)))
       (logging INFO (Searching (query_of sc item)) st)"

text \<open>
  One iteration of \<^verbatim>\<open>for location in locations\<close> (lines 125 to 173), at position \<open>i\<close>
  of the list. \<open>Next\<close> is the end of the iteration, by falling through or by
  \<open>continue\<close>: the \<open>for\<close> statement then takes the next item.
\<close>

definition for_body :: "script \<Rightarrow> world \<Rightarrow> nat \<Rightarrow> nat \<Rightarrow> string \<Rightarrow> state \<Rightarrow> flow \<times> state" where
  "for_body sc w fuel i item st =
     (case contains (key_of sc item) (email_results st) of
        Inl e \<Rightarrow> (Raised (Ordinary e), st)
      | Inr True \<Rightarrow> (Next, logging INFO (Skipping (key_of sc item)) st)
      | Inr False \<Rightarrow>
          (case process_item w fuel (w_visit w i) (key_of sc item) (url_of (query_of sc item))
                  (announce sc item st) of
             (Done, st1) \<Rightarrow> (Next, st1)
           | (Stuck, st1) \<Rightarrow> (Hang, st1)
           | (Failed e, st1) \<Rightarrow>
               if e = Ordinary WebDriverException
               then recover w (w_visit w i) (key_of sc item) st1
               else (Raised e, st1)))"

fun for_loop :: "script \<Rightarrow> world \<Rightarrow> nat \<Rightarrow> nat \<Rightarrow> string list \<Rightarrow> state \<Rightarrow> flow \<times> state" where
  "for_loop sc w fuel i [] st = (Next, st)"
| "for_loop sc w fuel i (item # items) st =
     (case for_body sc w fuel i item st of
        (Next, st') \<Rightarrow> for_loop sc w fuel (Suc i) items st'
      | (f, st') \<Rightarrow> (f, st'))"

text \<open>
  The body of the outer \<open>try\<close> (lines 120 to 173): start the session, then loop.
\<close>

definition try_body :: "script \<Rightarrow> world \<Rightarrow> nat \<Rightarrow> string list \<Rightarrow> state \<Rightarrow> flow \<times> state" where
  "try_body sc w fuel items st =
     (case initialize_driver (w_start w) st of
        (Inl e, st1) \<Rightarrow> (Raised (Ordinary e), st1)
      | (Inr None, st1) \<Rightarrow> (Raised (Ordinary OtherException), st1)
      | (Inr (Some d), st1) \<Rightarrow> for_loop sc w fuel 0 items (st1\<lparr>driver := Some d\<rparr>))"

text \<open>
  The way out (lines 175 to 184):

  \<^verbatim>\<open>except Exception as e:
      logging.error(...)
      save_checkpoint(email_results)
  finally:
      if driver:
          driver.quit()
          logging.info(...)
  return email_results\<close>

  An exception raised by \<open>driver.quit()\<close> in the \<open>finally\<close> clause leaves the function.
  A \<open>KeyboardInterrupt\<close> raised in the \<open>try\<close> block passes the handler, and leaves the
  function after the \<open>finally\<close> clause, unless \<open>driver.quit()\<close> raises there in its turn.
\<close>

datatype result = Returned json | Escaped raised | Hangs

definition finish :: "world \<Rightarrow> flow \<times> state \<Rightarrow> result \<times> state" where
  "finish w fs =
     (case fs of
        (Hang, st) \<Rightarrow> (Hangs, st)
      | (f, st) \<Rightarrow>
          (let st1 = (case f of
                        Raised (Ordinary e) \<Rightarrow>
                          save_checkpoint w (w_abort_write w) (email_results st)
                            (logging ERROR ScrapingError st)
                      | _ \<Rightarrow> st);
               res = (case f of
                        Raised KeyboardInterrupt \<Rightarrow> Escaped KeyboardInterrupt
                      | _ \<Rightarrow> Returned (email_results st1))
           in case driver st1 of
                None \<Rightarrow> (res, st1)
              | Some d \<Rightarrow>
                  (case w_final_quit w of
                     Some e \<Rightarrow> (Escaped e, emit (Quit d) st1)
                   | None \<Rightarrow> (res, logging INFO BrowserClosed (emit (Quit d) st1)))))"

definition scrape_google_emails ::
    "script \<Rightarrow> world \<Rightarrow> nat \<Rightarrow> string list \<Rightarrow> state \<Rightarrow> result \<times> state" where
  "scrape_google_emails sc w fuel items st =
     (case load_checkpoint w st of
        (r, st1) \<Rightarrow> finish w (try_body sc w fuel items (st1\<lparr>email_results := r, driver := None\<rparr>)))"

subsection \<open>The main program\<close>

text \<open>
  \<^verbatim>\<open>total = sum(len(emails) for emails in all_emails.values())\<close>
\<close>

fun len :: "json \<Rightarrow> exn + nat" where
  "len (JStr s) = Inr (length s)"
| "len (JList l) = Inr (length l)"
| "len (JDict d) = Inr (length d)"
| "len _ = Inl TypeError"

fun sum_len :: "json list \<Rightarrow> exn + nat" where
  "sum_len [] = Inr 0"
| "sum_len (v # vs) =
     (case len v of
        Inl e \<Rightarrow> Inl e
      | Inr n \<Rightarrow> (case sum_len vs of Inl e \<Rightarrow> Inl e | Inr m \<Rightarrow> Inr (n + m)))"

fun total :: "json \<Rightarrow> exn + nat" where
  "total (JDict d) = sum_len (map snd d)"
| "total _ = Inl AttributeError"

text \<open>
  \<^verbatim>\<open>try:
      for path in [excel_file_path, extension_path, extension_path2]:
          if not os.path.exists(path):
              raise FileNotFoundError(f"Missing: {path}")
      locations = load_locations_from_excel(excel_file_path)
      if not locations:
          logging.error(...)
          exit(1)
      all_emails = scrape_google_emails(extension_path, extension_path2, locations)
      total = sum(len(emails) for emails in all_emails.values())
      logging.info(...)
  except Exception as e:
      logging.error(...)\<close>

  The result is how the process ends, \<open>None\<close> when it never does. \<open>exit(1)\<close> raises
  \<open>SystemExit\<close>, which is no \<open>Exception\<close> and passes the handler; a script that reaches
  its end exits with status 0; a \<open>KeyboardInterrupt\<close> that leaves
  \<open>scrape_google_emails\<close> passes the handler too and ends the process with a traceback.
  The spreadsheet loader works through pandas: its result is the world's \<open>w_items\<close>.
\<close>

datatype ending = Exit int | Interrupted

definition main :: "script \<Rightarrow> world \<Rightarrow> nat \<Rightarrow> state \<Rightarrow> ending option \<times> state" where
  "main sc w fuel st =
     (if \<not> w_paths w then (Some (Exit 0), logging ERROR ScriptFailed st)
      else if w_items w = [] then (Some (Exit 1), logging ERROR NothingLoaded st)
      else case scrape_google_emails sc w fuel (w_items w) st of
             (Hangs, st') \<Rightarrow> (None, st')
           | (Escaped KeyboardInterrupt, st') \<Rightarrow> (Some Interrupted, st')
           | (Escaped (Ordinary e), st') \<Rightarrow> (Some (Exit 0), logging ERROR ScriptFailed st')
           | (Returned all_emails, st') \<Rightarrow>
               (case total all_emails of
                  Inl e \<Rightarrow> (Some (Exit 0), logging ERROR ScriptFailed st')
                | Inr n \<Rightarrow> (Some (Exit 0), logging INFO (AllDone n) st')))"

subsection \<open>Observations on a run\<close>

text \<open>
  The properties are about what a run did: the items it navigated to, in order (the keys of
  its \<open>Get\<close> events); the number of times it scrolled; the sessions it started and has
  not quit since; and the entry of a key in the dictionary (none when \<open>email_results\<close>
  is no dictionary).
\<close>

fun nav_key :: "event \<Rightarrow> string list" where
  "nav_key (Get d key url) = [key]"
| "nav_key _ = []"

definition navigated :: "event list \<Rightarrow> string list" where
  "navigated tr = concat (map nav_key tr)"

fun is_scroll :: "event \<Rightarrow> bool" where
  "is_scroll (ScrollTo d) = True"
| "is_scroll _ = False"

definition scrolls :: "event list \<Rightarrow> nat" where
  "scrolls tr = length (filter is_scroll tr)"

fun live_step :: "nat set \<Rightarrow> event \<Rightarrow> nat set" where
  "live_step L (Started d) = insert d L"
| "live_step L (Quit d) = L - {d}"
| "live_step L _ = L"

definition live :: "event list \<Rightarrow> nat set" where
  "live tr = foldl live_step {} tr"

fun lookup :: "json \<Rightarrow> string \<Rightarrow> json option" where
  "lookup (JDict d) key = map_of d key"
| "lookup _ key = None"

subsection \<open>Test doubles\<close>

text \<open>
  A page given by its measurements and its source, on which nothing fails; the \<open>json\<close>
  module given by a table of values and their text; a world in which nothing fails; the
  state of a process that has just started.
\<close>

definition page :: "int list \<Rightarrow> string \<Rightarrow> visit" where
  "page hs html =
     \<lparr>v_get = None,
      v_height = (\<lambda>n. if n < length hs then Inr (hs ! n)
                       else Inl (Ordinary WebDriverException)),
      v_scroll = (\<lambda>n. None),
      v_source = Inr html,
      v_write = Written,
      v_quit = None,
      v_restart = ChromeStarts\<rparr>"

definition table_dumps :: "(json \<times> string) list \<Rightarrow> json \<Rightarrow> string" where
  "table_dumps tbl r = (case map_of tbl r of Some t \<Rightarrow> t | None \<Rightarrow> [])"

definition table_loads :: "(json \<times> string) list \<Rightarrow> string \<Rightarrow> exn + json" where
  "table_loads tbl s =
     (case map_of (map (\<lambda>(r, t). (t, r)) tbl) s of
        Some r \<Rightarrow> Inr r
      | None \<Rightarrow> Inl JSONDecodeError)"

definition calm :: "(json \<times> string) list \<Rightarrow> (nat \<Rightarrow> visit) \<Rightarrow> string list \<Rightarrow> world" where
  "calm tbl pages items =
     \<lparr>w_loads = table_loads tbl, w_dumps = table_dumps tbl, w_readable = True,
      w_start = ChromeStarts, w_visit = pages, w_abort_write = Written, w_final_quit = None,
      w_paths = True, w_items = items\<rparr>"

definition fresh :: state where
  "fresh = \<lparr>email_results = JNull, driver = None, disk = None, trace = []\<rparr>"

text \<open>
  Two work items, Austin and Dallas: the first page grows once and names one address, the
  second names none. \<open>texts\<close> is the \<open>json\<close> module on the three dictionaries such a run
  writes.
\<close>

definition austin :: json where
  "austin = JDict [(''Austin'', JList [JStr ''a@x.com''])]"

definition austin_dallas :: json where
  "austin_dallas = JDict [(''Austin'', JList [JStr ''a@x.com'']), (''Dallas'', JList [])]"

definition texts :: "(json \<times> string) list" where
  "texts =
     [(JDict [], ''{}''),
      (austin, ''{'' @ dq @ ''Austin'' @ dq @ '': ['' @ dq @ ''a@x.com'' @ dq @ '']}''),
      (austin_dallas,
       ''{'' @ dq @ ''Austin'' @ dq @ '': ['' @ dq @ ''a@x.com'' @ dq @ ''], ''
         @ dq @ ''Dallas'' @ dq @ '': []}'')]"

definition two_pages :: "nat \<Rightarrow> visit" where
  "two_pages i =
     (if i = 0 then page [100, 250, 250] ''<p>write to a@x.com</p>''
      else page [70, 70] ''<p>no address here</p>'')"

definition two_cities :: world where
  "two_cities = calm texts two_pages [''Austin'', ''Dallas'']"

definition started :: state where
  "started = \<lparr>email_results = JDict [], driver = Some 0, disk = None, trace = [Started 0]\<rparr>"

definition resumed :: state where
  "resumed = \<lparr>email_results = JNull, driver = None,
               disk = Some (table_dumps texts austin), trace = []\<rparr>"

text \<open>The first navigation fails; a new session starts.\<close>

definition flaky :: world where
  "flaky = calm texts
     (\<lambda>i. if i = 0 then (page [] [])\<lparr>v_get := Some (Ordinary WebDriverException)\<rparr>
          else page [70, 70] ''<p>no address here</p>'')
     [''Austin'', ''Dallas'']"

text \<open>The first navigation fails; no new session starts.\<close>

definition doomed :: world where
  "doomed = calm texts
     (\<lambda>i. (page [] [])\<lparr>v_get := Some (Ordinary WebDriverException), v_restart := ChromeFails\<rparr>)
     [''Austin'', ''Dallas'']"

text \<open>The checkpoint file cannot be opened for writing.\<close>

definition read_only :: world where
  "read_only = calm texts (\<lambda>i. (two_pages i)\<lparr>v_write := NotOpened\<rparr>) [''Austin'']"

text \<open>The last \<open>quit()\<close> raises.\<close>

definition stubborn :: world where
  "stubborn = (calm texts two_pages [''Austin''])\<lparr>w_final_quit := Some (Ordinary OtherException)\<rparr>"

text \<open>The first navigation fails; the extension file is gone when the session restarts.\<close>

definition stripped :: world where
  "stripped = calm texts
     (\<lambda>i. (page [] [])\<lparr>v_get := Some (Ordinary WebDriverException),
                           v_restart := MissingExtension\<rparr>)
     [''Austin'', ''Dallas'']"

text \<open>The second navigation is interrupted from the keyboard.\<close>

definition interrupted :: world where
  "interrupted = calm texts
     (\<lambda>i. if i = 0 then two_pages 0 else (page [] [])\<lparr>v_get := Some KeyboardInterrupt\<rparr>)
     [''Austin'', ''Dallas'']"

text \<open>The write after the second item fails when ten characters are in the file.\<close>

definition cut_off :: world where
  "cut_off = calm texts
     (\<lambda>i. if i = 0 then two_pages 0 else (two_pages i)\<lparr>v_write := Truncated 10\<rparr>)
     [''Austin'', ''Dallas'']"

text \<open>
  The state after Austin is done and saved; and a \<open>json\<close> module that knows the texts
  \<open>5\<close> and \<open>[]\<close>, with a checkpoint file that holds the first.
\<close>

definition austin_saved :: state where
  "austin_saved = \<lparr>email_results = austin, driver = Some 0,
                    disk = Some (table_dumps texts austin), trace = [Started 0]\<rparr>"

definition scalars :: world where
  "scalars = calm [(JInt 5, ''5''), (JList [], ''[]'')] two_pages [''Austin'']"

definition five :: state where
  "five = \<lparr>email_results = JNull, driver = None, disk = Some ''5'', trace = []\<rparr>"

section \<open>Properties\<close>

subsection \<open>The text extractor\<close>

text \<open>
  The rule as the specification words it, for comparison: the label is \<^emph>\<open>exactly\<close> one of
  \<open>png\<close>, \<open>jpg\<close>, \<open>jpeg\<close>.
\<close>

definition spec_address :: "string \<Rightarrow> bool" where
  "spec_address m = (\<exists>l d t. m = l @ ''@'' @ d @ ''.'' @ t
      \<and> l \<noteq> [] \<and> list_all is_local l
      \<and> d \<noteq> [] \<and> list_all is_domain d
      \<and> 2 \<le> length t \<and> list_all is_alpha t
      \<and> t \<notin> {''png'', ''jpg'', ''jpeg''})"

text \<open>A greedy repetition that fails on every longer take stops at the first success.\<close>

lemma rep_none:
  "(\<And>a b. cs = a @ b \<Longrightarrow> list_all p a \<Longrightarrow> k b = None) \<Longrightarrow> rep p n k cs = None"
proof (induction cs arbitrary: n)
  case Nil
  then show ?case by simp
next
  case (Cons c cs)
  have here: "k (c # cs) = None" using Cons.prems[of "[]" "c # cs"] by simp
  have "rep p (n - 1) k cs = None" if "p c"
  proof (rule Cons.IH)
    fix a b assume "cs = a @ b" "list_all p a"
    then show "k b = None" using Cons.prems[of "c # a" b] that by simp
  qed
  with here show ?case by simp
qed

lemma rep_greedy:
  assumes "list_all p u" "n \<le> length u" "k w = Some r"
    and "\<And>a b. w = a @ b \<Longrightarrow> a \<noteq> [] \<Longrightarrow> list_all p a \<Longrightarrow> k b = None"
  shows "rep p n k (u @ w) = Some r"
  using assms(1,2)
proof (induction u arbitrary: n)
  case Nil
  show ?case
  proof (cases w)
    case Nil
    with assms(3) \<open>n \<le> length []\<close> show ?thesis by simp
  next
    case (Cons c cs)
    have "rep p 0 k cs = None" if "p c"
    proof (rule rep_none)
      fix a b assume "cs = a @ b" "list_all p a"
      then show "k b = None" using assms(4)[of "c # a" b] Cons that by simp
    qed
    with Cons assms(3) Nil.prems show ?thesis by simp
  qed
next
  case (Cons x u)
  then have "rep p (n - 1) k (u @ w) = Some r" by simp
  with Cons.prems show ?case by simp
qed

lemma alpha_not_dot: "is_alpha c \<Longrightarrow> c \<noteq> CHR ''.''"
  by (auto simp: is_alpha_def)

lemma alpha_domain: "is_alpha c \<Longrightarrow> is_domain c"
  by (simp add: is_domain_def is_alnum_def)

lemma domain_local: "is_domain c \<Longrightarrow> is_local c"
  by (auto simp: is_domain_def is_local_def)

lemma at_not_local: "\<not> is_local CHR ''@''"
  by (simp add: is_local_def is_alnum_def is_alpha_def)

lemma dot_domain: "is_domain CHR ''.''"
  by (simp add: is_domain_def)

text \<open>
  A lookahead for letters does not see past a character that is no letter.
\<close>

lemma prefix_letters:
  assumes "list_all is_alpha a" "post = [] \<or> \<not> is_alpha (hd post)" "prefix a (t @ post)"
  shows "prefix a t"
proof -
  from assms(3) have "prefix a t \<or> (\<exists>us. a = t @ us \<and> prefix us post)"
    by (simp add: prefix_append)
  then show ?thesis
  proof
    assume "\<exists>us. a = t @ us \<and> prefix us post"
    then obtain us where us: "a = t @ us" "prefix us post" by blast
    show ?thesis
    proof (cases us)
      case Nil
      with us show ?thesis by simp
    next
      case (Cons x xs)
      with us(2) have "post \<noteq> []" "hd post = x" by (auto simp: prefix_def)
      moreover have "is_alpha x" using assms(1) us(1) Cons by simp
      ultimately show ?thesis using assms(2) by simp
    qed
  qed
qed

text \<open>
  An address followed by a character outside the domain class, or by nothing, is matched
  whole, and nothing of what follows with it.
\<close>

lemma address_match:
  assumes "address m" and post: "post = [] \<or> \<not> is_domain (hd post)"
  shows "match_here (m @ post) = Some post"
proof -
  from assms obtain l d t where m: "m = l @ ''@'' @ d @ ''.'' @ t"
    and l: "l \<noteq> []" "list_all is_local l" and d: "d \<noteq> []" "list_all is_domain d"
    and t: "2 \<le> length t" "list_all is_alpha t"
    and np: "\<not> prefix ''png'' t" "\<not> prefix ''jpg'' t" "\<not> prefix ''jpeg'' t"
    unfolding address_def by blast
  have post': "post = [] \<or> \<not> is_alpha (hd post)"
    using post alpha_domain by blast
  let ?k3 = "not_ahead [''png'', ''jpg'', ''jpeg''] (rep is_alpha 2 Some)"
  let ?k2 = "lit CHR ''.'' ?k3"
  let ?k1 = "lit CHR ''@'' (rep is_domain 1 ?k2)"
  have "rep is_alpha 2 Some (t @ post) = Some post"
  proof (rule rep_greedy[OF t(2) t(1)])
    show "Some post = Some post" by simp
    fix a b assume "post = a @ b" "a \<noteq> []" "list_all is_alpha a"
    then have "post \<noteq> [] \<and> is_alpha (hd post)" by (cases a) auto
    with post' show "Some b = None" by simp
  qed
  moreover have "\<not> prefix a (t @ post)" if "a \<in> set [''png'', ''jpg'', ''jpeg'']" for a
  proof
    assume p: "prefix a (t @ post)"
    have "list_all is_alpha a" using that by (auto simp: is_alpha_def)
    from prefix_letters[OF this post' p] np that show False by auto
  qed
  ultimately have k3: "?k3 (t @ post) = Some post"
    by (auto simp: not_ahead_def)
  have post_k2: "?k2 post = None"
  proof (cases post)
    case Nil
    then show ?thesis by simp
  next
    case (Cons c cs)
    with post have "c \<noteq> CHR ''.''" using dot_domain by auto
    with Cons show ?thesis by simp
  qed
  have "rep is_domain 1 ?k2 (d @ (''.'' @ t @ post)) = Some post"
  proof (rule rep_greedy[OF d(2)])
    show "1 \<le> length d" using d(1) by (cases d) auto
    show "?k2 (''.'' @ t @ post) = Some post" using k3 by simp
    fix a b assume ab: "''.'' @ t @ post = a @ b" "a \<noteq> []" "list_all is_domain a"
    then obtain a' where a': "a = CHR ''.'' # a'" "t @ post = a' @ b" by (cases a) auto
    from a'(2) have "(\<exists>us. a' @ us = t \<and> b = us @ post) \<or> (\<exists>us. t @ us = a' \<and> post = us @ b)"
      by (auto simp: append_eq_append_conv2)
    then show "?k2 b = None"
    proof
      assume "\<exists>us. a' @ us = t \<and> b = us @ post"
      then obtain us where us: "a' @ us = t" "b = us @ post" by blast
      show ?thesis
      proof (cases us)
        case Nil
        with us post_k2 show ?thesis by simp
      next
        case (Cons x xs)
        with us(1) t(2) have "is_alpha x" by auto
        with Cons us(2) show ?thesis by (auto dest: alpha_not_dot)
      qed
    next
      assume "\<exists>us. t @ us = a' \<and> post = us @ b"
      then obtain us where us: "t @ us = a'" "post = us @ b" by blast
      show ?thesis
      proof (cases us)
        case Nil
        with us post_k2 show ?thesis by simp
      next
        case (Cons x xs)
        with us(1) ab(3) a'(1) have "is_domain x" by auto
        moreover from Cons us(2) have "post \<noteq> []" "hd post = x" by auto
        ultimately show ?thesis using post by simp
      qed
    qed
  qed
  then have k1: "?k1 (''@'' @ d @ ''.'' @ t @ post) = Some post" by simp
  have "rep is_local 1 ?k1 (l @ (''@'' @ d @ ''.'' @ t @ post)) = Some post"
  proof (rule rep_greedy[OF l(2)])
    show "1 \<le> length l" using l(1) by (cases l) auto
    show "?k1 (''@'' @ d @ ''.'' @ t @ post) = Some post" by (rule k1)
    fix a b assume ab: "''@'' @ d @ ''.'' @ t @ post = a @ b" "a \<noteq> []" "list_all is_local a"
    then have "hd a = CHR ''@''" by (cases a) auto
    with ab(2,3) show "?k1 b = None" using at_not_local by (cases a) auto
  qed
  then show ?thesis unfolding match_here_def m by simp
qed

lemma address_nonempty: "address m \<Longrightarrow> m \<noteq> []"
  by (auto simp: address_def)

lemma address_chars:
  assumes "address m" "c \<in> set m"
  shows "is_local c \<or> c = CHR ''@''"
proof -
  from assms(1) obtain l d t where m: "m = l @ ''@'' @ d @ ''.'' @ t"
    and l: "list_all is_local l" and d: "list_all is_domain d" and t: "list_all is_alpha t"
    unfolding address_def by blast
  from assms(2) m have "c \<in> set l \<or> c = CHR ''@'' \<or> c \<in> set d \<or> c = CHR ''.'' \<or> c \<in> set t"
    by auto
  moreover have "is_local CHR ''.''" using dot_domain by (rule domain_local)
  ultimately show ?thesis
    using l d t by (auto simp: list_all_iff intro: domain_local domain_local[OF alpha_domain])
qed

lemma findall_address:
  assumes "address m" "post = [] \<or> \<not> is_domain (hd post)"
  shows "findall (m @ post) = m # findall post"
  using address_match[OF assms] address_nonempty[OF assms(1)]
  by (subst findall.simps) simp

text \<open>
  A character that can stand in no address, neither of the local-part class nor \<open>@\<close>,
  separates the matches: no match runs across it, and what precedes it has no influence on
  the matches that follow it. Each construct of the pattern carries the property from its
  continuation.
\<close>

lemma rep_break:
  assumes k: "\<And>u. k (u @ c # s) = map_option (\<lambda>r. r @ s) (k (u @ [c]))" and c: "\<not> p c"
  shows "rep p n k (u @ c # s) = map_option (\<lambda>r. r @ s) (rep p n k (u @ [c]))"
proof (induction u arbitrary: n)
  case Nil
  show ?case using k[of "[]"] c by simp
next
  case (Cons x u)
  show ?case using Cons.IH[of "n - 1"] k[of "x # u"]
    by (cases "rep p (n - 1) k (u @ [c])") simp_all
qed

lemma lit_break:
  assumes k: "\<And>u. k (u @ c # s) = map_option (\<lambda>r. r @ s) (k (u @ [c]))" and c: "a \<noteq> c"
  shows "lit a k (u @ c # s) = map_option (\<lambda>r. r @ s) (lit a k (u @ [c]))"
  using k c by (cases u) auto

lemma prefix_break: "c \<notin> set a \<Longrightarrow> prefix a (u @ c # s) \<longleftrightarrow> prefix a u"
proof
  assume c: "c \<notin> set a" and "prefix a (u @ c # s)"
  then have "prefix a u \<or> (\<exists>us. a = u @ us \<and> prefix us (c # s))" by (simp add: prefix_append)
  then show "prefix a u"
  proof
    assume "\<exists>us. a = u @ us \<and> prefix us (c # s)"
    then obtain us where us: "a = u @ us" "prefix us (c # s)" by blast
    with c show ?thesis by (cases us) auto
  qed
next
  assume "prefix a u"
  then show "prefix a (u @ c # s)" by (rule prefix_prefix)
qed

lemma not_ahead_break:
  assumes k: "\<And>u. k (u @ c # s) = map_option (\<lambda>r. r @ s) (k (u @ [c]))"
    and c: "\<And>a. a \<in> set alts \<Longrightarrow> c \<notin> set a"
  shows "not_ahead alts k (u @ c # s) = map_option (\<lambda>r. r @ s) (not_ahead alts k (u @ [c]))"
proof -
  have "prefix a (u @ c # s) \<longleftrightarrow> prefix a (u @ [c])" if "a \<in> set alts" for a
    using prefix_break[OF c[OF that], of u s] prefix_break[OF c[OF that], of u "[]"] by simp
  then show ?thesis using k[of u] by (simp add: not_ahead_def)
qed

lemma match_here_break:
  assumes "\<not> is_local c" "c \<noteq> CHR ''@''"
  shows "match_here (u @ c # s) = map_option (\<lambda>r. r @ s) (match_here (u @ [c]))"
proof -
  have nd: "\<not> is_domain c" using assms(1) domain_local by blast
  have na: "\<not> is_alpha c" using nd alpha_domain by blast
  have dot: "CHR ''.'' \<noteq> c" using nd dot_domain by auto
  have alts: "c \<notin> set a" if "a \<in> set [''png'', ''jpg'', ''jpeg'']" for a
  proof
    assume "c \<in> set a"
    with that have "is_alpha c" by (auto simp: is_alpha_def)
    with na show False by simp
  qed
  have k0: "Some (u @ c # s) = map_option (\<lambda>r. r @ s) (Some (u @ [c]))" for u by simp
  note k1 = rep_break[where k = Some and p = is_alpha and n = 2, OF k0 na]
  note k2 = not_ahead_break[where alts = "[''png'', ''jpg'', ''jpeg'']", OF k1 alts]
  note k3 = lit_break[OF k2 dot]
  note k4 = rep_break[where p = is_domain and n = 1, OF k3 nd]
  note k5 = lit_break[OF k4 assms(2)[symmetric]]
  note k6 = rep_break[where p = is_local and n = 1, OF k5 assms(1)]
  show ?thesis unfolding match_here_def by (rule k6)
qed

lemma match_here_before_break:
  assumes "match_here (u @ [c]) = Some r" "\<not> is_local c" "c \<noteq> CHR ''@''"
  shows "\<exists>m r'. u = m @ r' \<and> r = r' @ [c] \<and> address m"
proof -
  from assms(1) obtain m where m: "u @ [c] = m @ r" "address m"
    by (blast dest: match_here_split)
  have "r \<noteq> []"
  proof
    assume "r = []"
    with m(1) have "c \<in> set m" by (metis append_Nil2 in_set_conv_decomp)
    from address_chars[OF m(2) this] assms(2,3) show False by simp
  qed
  then obtain r' x where r: "r = r' @ [x]" by (metis rev_exhaust)
  with m(1) have "u = m @ r'" "x = c" by auto
  with r m(2) show ?thesis by blast
qed

lemma findall_break:
  assumes "\<not> is_local c" "c \<noteq> CHR ''@''"
  shows "findall (u @ c # s) = findall (u @ [c]) @ findall s"
proof (induction u rule: length_induct)
  case (1 u)
  show ?case
  proof (cases "match_here (u @ [c])")
    case None
    then have n: "match_here (u @ c # s) = None" using match_here_break[OF assms, of u s] by simp
    show ?thesis
    proof (cases u)
      case Nil
      with None n show ?thesis
        by (simp add: findall.simps[of "c # s"] findall.simps[of "[c]"] findall.simps[of "[]"])
    next
      case (Cons x v)
      with 1 have "findall (v @ c # s) = findall (v @ [c]) @ findall s" by simp
      with None n Cons show ?thesis
        by (simp add: findall.simps[of "x # v @ c # s"] findall.simps[of "x # v @ [c]"])
    qed
  next
    case (Some r)
    from match_here_before_break[OF Some assms] obtain m r'
      where m: "u = m @ r'" "r = r' @ [c]" "address m" by blast
    have ne: "m \<noteq> []" using m(3) by (rule address_nonempty)
    have s: "match_here (u @ c # s) = Some (r' @ c # s)"
      using Some m(2) match_here_break[OF assms, of u s] by simp
    have "length r' < length u" using m(1) ne by (cases m) auto
    with 1 have ih: "findall (r' @ c # s) = findall (r' @ [c]) @ findall s" by simp
    have "findall (u @ c # s) = m # findall (r' @ c # s)"
      using s m(1) by (subst findall.simps) simp
    moreover have "findall (u @ [c]) = m # findall (r' @ [c])"
      using Some m(1,2) by (subst findall.simps) simp
    ultimately show ?thesis using ih by simp
  qed
qed

lemma findall_delimited:
  assumes "address m"
    and pre: "pre = [] \<or> (\<not> is_local (last pre) \<and> last pre \<noteq> CHR ''@'')"
    and post: "post = [] \<or> \<not> is_domain (hd post)"
  shows "findall (pre @ m @ post) = findall pre @ m # findall post"
proof (cases "pre = []")
  case True
  then show ?thesis using findall_address[OF assms(1) post] by (simp add: findall.simps[of "[]"])
next
  case False
  then obtain u c where u: "pre = u @ [c]" by (metis rev_exhaust)
  with pre have c: "\<not> is_local c" "c \<noteq> CHR ''@''" by auto
  show ?thesis using findall_break[OF c, of u "m @ post"] findall_address[OF assms(1) post] u
    by simp
qed

lemma extract_emails_set: "set (extract_emails s) = set (findall s)"
  by (simp add: extract_emails_def)

lemma extract_alone: "extract_emails m = [m] \<longleftrightarrow> address m"
proof
  assume "extract_emails m = [m]"
  then have "m \<in> set (extract_emails m)" by simp
  then have "m \<in> set (findall m)" by (simp only: extract_emails_set)
  then show "address m" by (simp add: findall_sound)
next
  assume a: "address m"
  then have "findall m = [m]"
    using findall_address[OF a, of "[]"] by (simp add: findall.simps[of "[]"])
  then show "extract_emails m = [m]" by (simp add: extract_emails_def)
qed

text \<open>
  Claim C5 (extraction exclusion), as the code has it. Every string returned is a piece of
  the input of the form local-part, \<open>@\<close>, domain, dot, label, the local part drawn from
  \<^verbatim>\<open>[A-Za-z0-9._%+-]\<close>, the domain from \<^verbatim>\<open>[A-Za-z0-9.-]\<close>, the label of at least two letters,
  and the label does not \<^emph>\<open>begin\<close> with \<open>png\<close>, \<open>jpg\<close> or \<open>jpeg\<close>. Conversely, wherever a
  string \<open>m\<close> of that form stands in the input delimited, that is, at the start of the input
  or directly after a character that is neither of the local-part class nor \<open>@\<close>, and at
  the end of the input or directly before a character outside the domain class, it is
  matched as a whole: the matches of the input are those of what precedes \<open>m\<close>, then \<open>m\<close>,
  then those of what follows \<open>m\<close>, so \<open>m\<close> is returned. A string standing alone is returned
  as its own match exactly when it has that form. No input yields \<open>foo@bar.png\<close> or
  \<open>x@y.jpeg\<close>, and these two inputs yield nothing; \<open>a@b.com\<close> has the form, so an input
  that contains it delimited yields it.
\<close>

theorem extract_emails_matches:
  "(\<forall>m \<in> set (extract_emails s). sublist m s \<and> address m)
   \<and> (address m
        \<and> (pre = [] \<or> (\<not> is_local (last pre) \<and> last pre \<noteq> CHR ''@''))
        \<and> (post = [] \<or> \<not> is_domain (hd post))
      \<longrightarrow> findall (pre @ m @ post) = findall pre @ m # findall post
          \<and> m \<in> set (extract_emails (pre @ m @ post)))
   \<and> (extract_emails m = [m] \<longleftrightarrow> address m)
   \<and> ''foo@bar.png'' \<notin> set (extract_emails s) \<and> ''x@y.jpeg'' \<notin> set (extract_emails s)
   \<and> extract_emails ''foo@bar.png'' = [] \<and> extract_emails ''x@y.jpeg'' = []
   \<and> address ''a@b.com'' \<and> extract_emails ''a@b.com'' = [''a@b.com'']"
proof -
  have sound: "\<forall>m \<in> set (extract_emails s). sublist m s \<and> address m"
    by (simp add: extract_emails_set findall_sound)
  have png: "extract_emails ''foo@bar.png'' = []" by code_simp
  have jpeg: "extract_emails ''x@y.jpeg'' = []" by code_simp
  have com: "extract_emails ''a@b.com'' = [''a@b.com'']" by code_simp
  have "\<not> address ''foo@bar.png''" using extract_alone[of "''foo@bar.png''"] png by simp
  with sound have no_png: "''foo@bar.png'' \<notin> set (extract_emails s)" by blast
  have "\<not> address ''x@y.jpeg''" using extract_alone[of "''x@y.jpeg''"] jpeg by simp
  with sound have no_jpeg: "''x@y.jpeg'' \<notin> set (extract_emails s)" by blast
  have a_com: "address ''a@b.com''" using extract_alone[of "''a@b.com''"] com by simp
  have complete: "findall (pre @ m @ post) = findall pre @ m # findall post
      \<and> m \<in> set (extract_emails (pre @ m @ post))"
    if "address m" "pre = [] \<or> (\<not> is_local (last pre) \<and> last pre \<noteq> CHR ''@'')"
      "post = [] \<or> \<not> is_domain (hd post)"
    using findall_delimited[OF that] by (simp add: extract_emails_set)
  show ?thesis
    using sound complete extract_alone[of m] no_png no_jpeg png jpeg a_com com
    by (intro conjI impI) (simp_all only: simp_thms)
qed

theorem extract_emails_matches_witness:
  "address ''a@b.com''
   \<and> sublist ''a@b.com'' ''mail c@d.net, a@b.com; x@y.jpg''
   \<and> findall ''mail c@d.net, a@b.com; x@y.jpg''
       = findall ''mail c@d.net, '' @ ''a@b.com'' # findall ''; x@y.jpg''
   \<and> extract_emails ''mail c@d.net, a@b.com; x@y.jpg'' = [''a@b.com'', ''c@d.net'']"
proof -
  have e: "extract_emails ''mail c@d.net, a@b.com; x@y.jpg'' = [''a@b.com'', ''c@d.net'']"
    by code_simp
  have d: "\<not> is_local (last ''mail c@d.net, '')" "last ''mail c@d.net, '' \<noteq> CHR ''@''"
    "\<not> is_domain (hd ''; x@y.jpg'')"
    by code_simp+
  have c: "''mail c@d.net, '' @ ''a@b.com'' @ ''; x@y.jpg'' = ''mail c@d.net, a@b.com; x@y.jpg''"
    by simp
  note t = extract_emails_matches[of "''mail c@d.net, a@b.com; x@y.jpg''" "''a@b.com''"
      "''mail c@d.net, ''" "''; x@y.jpg''"]
  from t have a: "address ''a@b.com''" by (elim conjE)
  from t have s: "\<forall>m \<in> set (extract_emails ''mail c@d.net, a@b.com; x@y.jpg'').
      sublist m ''mail c@d.net, a@b.com; x@y.jpg'' \<and> address m" by (elim conjE)
  from t a d have f: "findall (''mail c@d.net, '' @ ''a@b.com'' @ ''; x@y.jpg'')
      = findall ''mail c@d.net, '' @ ''a@b.com'' # findall ''; x@y.jpg''" by blast
  from s e have "sublist ''a@b.com'' ''mail c@d.net, a@b.com; x@y.jpg''" by simp
  with a f e show ?thesis unfolding c by (intro conjI)
qed

text \<open>
  The claim as stated fails in two ways. With the label excluded only when it is exactly
  \<open>png\<close>, \<open>jpg\<close> or \<open>jpeg\<close>: \<open>a@b.pngs\<close> has the form the specification describes, its
  label \<open>pngs\<close> is none of the three, and the lookahead rejects it all the same. And an
  input that contains \<open>a@b.com\<close> need not yield it: in \<open>xa@b.com\<close> the match starts one
  character earlier, and the only string returned is \<open>xa@b.com\<close>.
\<close>

theorem exclusion_by_prefix_counterexample:
  "spec_address ''a@b.pngs'' \<and> extract_emails ''a@b.pngs'' = []
   \<and> sublist ''a@b.com'' ''xa@b.com'' \<and> ''a@b.com'' \<notin> set (extract_emails ''xa@b.com'')
   \<and> extract_emails ''xa@b.com'' = [''xa@b.com'']"
proof -
  have "''a@b.pngs'' = ''a'' @ ''@'' @ ''b'' @ ''.'' @ ''pngs''" by simp
  moreover have "list_all is_local ''a''" "list_all is_domain ''b''" "list_all is_alpha ''pngs''"
    by code_simp+
  ultimately have "spec_address ''a@b.pngs''"
    unfolding spec_address_def by (intro exI[of _ "''a''"] exI[of _ "''b''"] exI[of _ "''pngs''"]) simp
  moreover have "extract_emails ''a@b.pngs'' = []" by code_simp
  moreover have "sublist ''a@b.com'' ''xa@b.com''"
    unfolding sublist_def by (intro exI[of _ "''x''"] exI[of _ "[]"]) simp
  moreover have x: "extract_emails ''xa@b.com'' = [''xa@b.com'']" by code_simp
  moreover have "''a@b.com'' \<notin> set (extract_emails ''xa@b.com'')" unfolding x by simp
  ultimately show ?thesis by (intro conjI)
qed

text \<open>
  Claim C6 (extraction determinism and normal form). The result is sorted in ascending
  order and has no duplicates; and it is a function of the \<^emph>\<open>set\<close> of matches alone: in
  whatever order, and however often, the matches are listed, sorting after removing
  duplicates gives the same list.
\<close>

theorem extract_emails_normal_form:
  "sorted (extract_emails s) \<and> distinct (extract_emails s)
   \<and> (\<forall>xs. set xs = set (findall s) \<longrightarrow> sort (remdups xs) = extract_emails s)"
  by (auto simp: extract_emails_def sorted_list_of_set_sort_remdups[symmetric])

theorem extract_emails_normal_form_witness:
  "extract_emails ''b@x.org, a@x.org; b@x.org'' = [''a@x.org'', ''b@x.org'']
   \<and> sort (remdups [''a@x.org'', ''b@x.org'', ''a@x.org'']) = extract_emails ''b@x.org, a@x.org; b@x.org''"
proof -
  have "set [''a@x.org'', ''b@x.org'', ''a@x.org''] = set (findall ''b@x.org, a@x.org; b@x.org'')"
    by code_simp
  moreover have "extract_emails ''b@x.org, a@x.org; b@x.org'' = [''a@x.org'', ''b@x.org'']"
    by code_simp
  ultimately show ?thesis
    using extract_emails_normal_form[of "''b@x.org, a@x.org; b@x.org''"] by blast
qed

subsection \<open>The checkpoint store\<close>

lemma emit_fields [simp]:
  "email_results (emit e st) = email_results st"
  "driver (emit e st) = driver st"
  "disk (emit e st) = disk st"
  "trace (emit e st) = trace st @ [e]"
  by (simp_all add: emit_def)

lemma logging_fields [simp]:
  "email_results (logging l m st) = email_results st"
  "driver (logging l m st) = driver st"
  "disk (logging l m st) = disk st"
  "trace (logging l m st) = trace st @ [Log l m]"
  by (simp_all add: logging_def)

lemma announce_fields [simp]:
  "email_results (announce sc item st) = email_results st"
  "driver (announce sc item st) = driver st"
  "disk (announce sc item st) = disk st"
  "trace (announce sc item st) =
     trace st @ [Log INFO (Searching (query_of sc item)),
                 Log INFO (ConstructedUrl (url_of (query_of sc item)))]"
  by (simp_all add: announce_def)

lemma save_checkpoint_fields [simp]:
  "email_results (save_checkpoint w how r st) = email_results st"
  "driver (save_checkpoint w how r st) = driver st"
  "trace (save_checkpoint w how r st) =
     trace st @ [Write r, Log (if how = Written then INFO else ERROR)
                            (if how = Written then CheckpointSaved else CheckpointSaveError)]"
  "disk (save_checkpoint w how r st) =
     (case how of Written \<Rightarrow> Some (w_dumps w r) | NotOpened \<Rightarrow> disk st
      | Truncated n \<Rightarrow> Some (take n (w_dumps w r)))"
  by (simp_all add: save_checkpoint_def split: saving.splits)

lemma fold_logging_fields [simp]:
  "email_results (fold (\<lambda>x. logging l (f x)) xs st) = email_results st"
  "driver (fold (\<lambda>x. logging l (f x)) xs st) = driver st"
  "disk (fold (\<lambda>x. logging l (f x)) xs st) = disk st"
  "trace (fold (\<lambda>x. logging l (f x)) xs st) = trace st @ map (\<lambda>x. Log l (f x)) xs"
  by (induction xs arbitrary: st) simp_all

lemma load_checkpoint_trace:
  "load_checkpoint w st = (r, st') \<Longrightarrow>
     driver st' = driver st \<and> disk st' = disk st \<and> email_results st' = email_results st
     \<and> (\<exists>evs. trace st' = trace st @ evs \<and> (\<forall>e \<in> set evs. \<exists>l m. e = Log l m))"
  by (auto simp: load_checkpoint_def read_checkpoint_def Let_def
      split: option.splits if_splits sum.splits)

lemma load_checkpoint_returns_parsed:
  assumes "disk st = Some raw" "w_readable w" "strip raw \<noteq> []" "w_loads w (strip raw) = Inr r"
  shows "load_checkpoint w st = (r, st)"
  using assms by (simp add: load_checkpoint_def read_checkpoint_def)

lemma reload:
  assumes "disk st = Some (w_dumps w r)" "w_readable w" "strip (w_dumps w r) \<noteq> []"
    "w_loads w (strip (w_dumps w r)) = Inr r"
  shows "fst (load_checkpoint w st) = r"
  using assms by (simp add: load_checkpoint_def read_checkpoint_def)

text \<open>
  Claim C7 (corrupt-checkpoint recovery), as the code has it. \<open>load_checkpoint\<close> returns
  the empty dictionary when the file does not exist, when its content is empty or blank,
  when \<open>json.loads\<close> raises on it, and when it cannot be read; in none of these cases
  does it raise: every exception of the \<open>try\<close> block ends in a handler that returns
  \<open>{}\<close>, and a parse failure leaves one line in the log, at level ERROR. Content on which
  \<open>json.loads\<close> succeeds is returned as parsed, whatever it is, and nothing is logged:
  there is no test that it is a mapping.
\<close>

theorem load_checkpoint_recovers:
  "(disk st = None \<longrightarrow> load_checkpoint w st = (JDict [], st))
   \<and> (disk st = Some raw \<and> strip raw = [] \<longrightarrow> fst (load_checkpoint w st) = JDict [])
   \<and> (disk st = Some raw \<and> w_loads w (strip raw) = Inl e \<longrightarrow>
        fst (load_checkpoint w st) = JDict [])
   \<and> (disk st = Some raw \<and> \<not> w_readable w \<longrightarrow> fst (load_checkpoint w st) = JDict [])
   \<and> (disk st = Some raw \<and> w_readable w \<and> strip raw \<noteq> [] \<and> w_loads w (strip raw) = Inl e \<longrightarrow>
        trace (snd (load_checkpoint w st)) =
          trace st @ [Log ERROR (if e = JSONDecodeError then CheckpointCorrupt
                                 else CheckpointLoadError)])
   \<and> (disk st = Some raw \<and> w_readable w \<and> strip raw \<noteq> [] \<and> w_loads w (strip raw) = Inr r \<longrightarrow>
        load_checkpoint w st = (r, st))"
  by (simp add: load_checkpoint_def read_checkpoint_def Let_def)

theorem load_checkpoint_recovers_witness:
  "fst (load_checkpoint (calm [] (\<lambda>i. page [] []) [])
         \<lparr>email_results = JNull, driver = None, disk = Some ''{'', trace = []\<rparr>) = JDict []
   \<and> trace (snd (load_checkpoint (calm [] (\<lambda>i. page [] []) [])
         \<lparr>email_results = JNull, driver = None, disk = Some ''{'', trace = []\<rparr>))
       = [Log ERROR CheckpointCorrupt]
   \<and> load_checkpoint (calm [] (\<lambda>i. page [] []) []) fresh = (JDict [], fresh)
   \<and> fst (load_checkpoint (calm [] (\<lambda>i. page [] []) [])
         \<lparr>email_results = JNull, driver = None, disk = Some '' '', trace = []\<rparr>) = JDict []
   \<and> load_checkpoint two_cities resumed = (austin, resumed)"
proof -
  let ?w = "calm [] (\<lambda>i. page [] []) []"
  let ?st = "\<lparr>email_results = JNull, driver = None, disk = Some ''{'' , trace = []\<rparr>"
  let ?st2 = "\<lparr>email_results = JNull, driver = None, disk = Some '' '' , trace = []\<rparr>"
  have s: "strip ''{'' = ''{''" "strip '' '' = []" by code_simp+
  have l: "w_loads ?w ''{'' = Inl JSONDecodeError" "w_readable ?w"
    by (simp_all add: calm_def table_loads_def)
  have d: "disk ?st = Some ''{''" "disk ?st2 = Some '' ''" "disk fresh = None" "trace ?st = []"
    by (simp_all add: fresh_def)
  have t: "disk resumed = Some (table_dumps texts austin)" "w_readable two_cities"
    "strip (table_dumps texts austin) \<noteq> []"
    "w_loads two_cities (strip (table_dumps texts austin)) = Inr austin"
    by code_simp+
  have a: "load_checkpoint two_cities resumed = (austin, resumed)"
    using load_checkpoint_recovers[of resumed two_cities "table_dumps texts austin" JSONDecodeError
        austin] t by simp
  show ?thesis
    using load_checkpoint_recovers[of ?st ?w "''{''" JSONDecodeError]
      load_checkpoint_recovers[of fresh ?w "''{''" JSONDecodeError]
      load_checkpoint_recovers[of ?st2 ?w "'' ''" JSONDecodeError] s l d a
    by simp
qed

text \<open>
  The claim as stated, with the empty record for every content that is not a mapping,
  fails: a file that holds \<open>5\<close>, or \<open>[]\<close>, is valid JSON, and \<open>load_checkpoint\<close> returns
  the number, or the list, with nothing logged. The run that follows fails at its first
  \<open>location in email_results\<close> and returns the number.
\<close>

theorem unvalidated_checkpoint_returned:
  "load_checkpoint scalars five = (JInt 5, five)
   \<and> load_checkpoint scalars (five\<lparr>disk := Some ''[]''\<rparr>) = (JList [], five\<lparr>disk := Some ''[]''\<rparr>)
   \<and> fst (scrape_google_emails Aslocation scalars 5 [''Austin''] five) = Returned (JInt 5)"
proof -
  have "load_checkpoint scalars five = (JInt 5, five)" by code_simp
  moreover have "load_checkpoint scalars (five\<lparr>disk := Some ''[]''\<rparr>)
      = (JList [], five\<lparr>disk := Some ''[]''\<rparr>)" by code_simp
  moreover have "fst (scrape_google_emails Aslocation scalars 5 [''Austin''] five)
      = Returned (JInt 5)" by code_simp
  ultimately show ?thesis by (intro conjI)
qed

subsection \<open>The scroll loop\<close>

lemma scroll_loop_frame:
  "scroll_loop v fuel d i h st = (out, st') \<Longrightarrow>
     email_results st' = email_results st \<and> driver st' = driver st \<and> disk st' = disk st
     \<and> (\<exists>evs. trace st' = trace st @ evs \<and> set evs \<subseteq> {ScrollTo d, Measure d})"
proof (induction fuel arbitrary: i h st)
  case 0
  then show ?case by auto
next
  case (Suc fuel)
  show ?case
  proof (cases "v_scroll v i")
    case (Some e)
    with Suc.prems show ?thesis by auto
  next
    case None
    show ?thesis
    proof (cases "v_height v (Suc i)")
      case (Inl e)
      with None Suc.prems show ?thesis by auto
    next
      case (Inr nh)
      show ?thesis
      proof (cases "nh = h")
        case True
        with None Inr Suc.prems show ?thesis by auto
      next
        case False
        with None Inr Suc.prems
        have "scroll_loop v fuel d (Suc i) nh (emit (Measure d) (emit (ScrollTo d) st)) = (out, st')"
          by simp
        from Suc.IH[OF this] show ?thesis by auto
      qed
    qed
  qed
qed

lemma scroll_loop_stops:
  assumes "\<forall>n\<le>k. v_scroll v (i + n) = None"
    and "\<forall>n\<le>k. v_height v (Suc (i + n)) = Inr (h (Suc (i + n)))"
    and "h (Suc (i + k)) = h (i + k)" and "\<forall>j<k. h (Suc (i + j)) \<noteq> h (i + j)"
    and "k < fuel"
  shows "scroll_loop v fuel d i (h i) st =
           (Done, st\<lparr>trace := trace st @ concat (replicate (Suc k) [ScrollTo d, Measure d])\<rparr>)"
  using assms
proof (induction k arbitrary: i fuel st)
  case 0
  then obtain f where "fuel = Suc f" by (cases fuel) auto
  with 0 show ?case by (simp add: emit_def)
next
  case (Suc k)
  then obtain f where f: "fuel = Suc f" "k < f" by (cases fuel) auto
  have s: "v_scroll v i = None" using Suc.prems(1) by (metis add.right_neutral le0)
  have m: "v_height v (Suc i) = Inr (h (Suc i))" using Suc.prems(2) by (metis add.right_neutral le0)
  have ne: "h (Suc i) \<noteq> h i" using Suc.prems(4) by (metis add.right_neutral zero_less_Suc)
  have "scroll_loop v f d (Suc i) (h (Suc i)) (emit (Measure d) (emit (ScrollTo d) st)) =
          (Done, (emit (Measure d) (emit (ScrollTo d) st))
             \<lparr>trace := trace (emit (Measure d) (emit (ScrollTo d) st))
                @ concat (replicate (Suc k) [ScrollTo d, Measure d])\<rparr>)"
  proof (rule Suc.IH)
    show "\<forall>n\<le>k. v_scroll v (Suc i + n) = None"
      using Suc.prems(1) by (metis Suc_le_mono add_Suc_shift)
    show "\<forall>n\<le>k. v_height v (Suc (Suc i + n)) = Inr (h (Suc (Suc i + n)))"
      using Suc.prems(2) by (metis Suc_le_mono add_Suc_shift)
    show "h (Suc (Suc i + k)) = h (Suc i + k)" using Suc.prems(3) by simp
    show "\<forall>j<k. h (Suc (Suc i + j)) \<noteq> h (Suc i + j)"
      using Suc.prems(4) by (metis Suc_less_eq add_Suc_shift)
    show "k < f" by (rule f)
  qed
  with f s m ne show ?case by (simp add: emit_def)
qed

lemma scroll_loop_stuck:
  assumes "\<forall>n<fuel. v_scroll v (i + n) = None"
    and "\<forall>n<fuel. v_height v (Suc (i + n)) = Inr (h (Suc (i + n)))"
    and "\<forall>j<fuel. h (Suc (i + j)) \<noteq> h (i + j)"
  shows "scroll_loop v fuel d i (h i) st =
           (Stuck, st\<lparr>trace := trace st @ concat (replicate fuel [ScrollTo d, Measure d])\<rparr>)"
  using assms
proof (induction fuel arbitrary: i st)
  case 0
  then show ?case by simp
next
  case (Suc fuel)
  have s: "v_scroll v i = None" using Suc.prems(1) by (metis add.right_neutral zero_less_Suc)
  have m: "v_height v (Suc i) = Inr (h (Suc i))"
    using Suc.prems(2) by (metis add.right_neutral zero_less_Suc)
  have ne: "h (Suc i) \<noteq> h i" using Suc.prems(3) by (metis add.right_neutral zero_less_Suc)
  have "scroll_loop v fuel d (Suc i) (h (Suc i)) (emit (Measure d) (emit (ScrollTo d) st)) =
          (Stuck, (emit (Measure d) (emit (ScrollTo d) st))
             \<lparr>trace := trace (emit (Measure d) (emit (ScrollTo d) st))
                @ concat (replicate fuel [ScrollTo d, Measure d])\<rparr>)"
  proof (rule Suc.IH)
    show "\<forall>n<fuel. v_scroll v (Suc i + n) = None"
      using Suc.prems(1) by (metis Suc_less_eq add_Suc_shift)
    show "\<forall>n<fuel. v_height v (Suc (Suc i + n)) = Inr (h (Suc (Suc i + n)))"
      using Suc.prems(2) by (metis Suc_less_eq add_Suc_shift)
    show "\<forall>j<fuel. h (Suc (Suc i + j)) \<noteq> h (Suc i + j)"
      using Suc.prems(3) by (metis Suc_less_eq add_Suc_shift)
  qed
  with s m ne show ?case by (simp add: emit_def)
qed

lemma scrolls_append [simp]: "scrolls (a @ b) = scrolls a + scrolls b"
  by (simp add: scrolls_def)

lemma scrolls_rounds [simp]: "scrolls (concat (replicate n [ScrollTo d, Measure d])) = n"
  by (induction n) (simp_all add: scrolls_def)

text \<open>
  Claim C8 (scroll-to-exhaustion termination). On a page whose scripts do not raise and
  whose measurements are \<open>h 0, h 1, ...\<close>, the loop ends exactly when a measurement
  equals the one before it: within \<open>fuel\<close> iterations it is done if and only if two
  consecutive measurements among them are equal, and it is still running after them if
  and only if none are; it has then scrolled once for each measurement up to the first
  repetition. For the measurements 100, 250, 250 it scrolls exactly twice and ends.
\<close>

theorem scroll_to_exhaustion:
  assumes "\<forall>n<fuel. v_scroll v n = None" and "\<forall>n\<le>fuel. v_height v n = Inr (h n)"
  shows "(fst (scroll_loop v fuel d 0 (h 0) st) = Done \<longleftrightarrow> (\<exists>k<fuel. h (Suc k) = h k))
       \<and> (fst (scroll_loop v fuel d 0 (h 0) st) = Stuck \<longleftrightarrow> (\<forall>k<fuel. h (Suc k) \<noteq> h k))
       \<and> (\<forall>k<fuel. h (Suc k) = h k \<and> (\<forall>j<k. h (Suc j) \<noteq> h j) \<longrightarrow>
            scroll_loop v fuel d 0 (h 0) st =
              (Done, st\<lparr>trace := trace st @ concat (replicate (Suc k) [ScrollTo d, Measure d])\<rparr>))
       \<and> (2 \<le> fuel' \<longrightarrow>
            scroll_loop (page [100, 250, 250] html) fuel' d 0 100 st =
              (Done, st\<lparr>trace := trace st @ [ScrollTo d, Measure d, ScrollTo d, Measure d]\<rparr>)
            \<and> scrolls (trace (snd (scroll_loop (page [100, 250, 250] html) fuel' d 0 100 st)))
                = scrolls (trace st) + 2)"
proof -
  have stop: "scroll_loop v fuel d 0 (h 0) st =
      (Done, st\<lparr>trace := trace st @ concat (replicate (Suc k) [ScrollTo d, Measure d])\<rparr>)"
    if "k < fuel" "h (Suc k) = h k" "\<forall>j<k. h (Suc j) \<noteq> h j" for k
    using scroll_loop_stops[of k v 0 h fuel d st] assms that by simp
  have stuck: "scroll_loop v fuel d 0 (h 0) st =
      (Stuck, st\<lparr>trace := trace st @ concat (replicate fuel [ScrollTo d, Measure d])\<rparr>)"
    if "\<forall>k<fuel. h (Suc k) \<noteq> h k"
    using scroll_loop_stuck[of fuel v 0 h d st] assms that by simp
  have least: "\<exists>k<fuel. h (Suc k) = h k \<and> (\<forall>j<k. h (Suc j) \<noteq> h j)"
    if ex: "\<exists>k<fuel. h (Suc k) = h k"
  proof -
    define k where "k = (LEAST k. h (Suc k) = h k)"
    from ex obtain k0 where k0: "k0 < fuel" "h (Suc k0) = h k0" by blast
    have "h (Suc k) = h k" unfolding k_def using k0(2) by (rule LeastI)
    moreover have "k \<le> k0" unfolding k_def using k0(2) by (rule Least_le)
    moreover have "\<forall>j<k. h (Suc j) \<noteq> h j" unfolding k_def using not_less_Least by blast
    ultimately show ?thesis using k0(1) by (intro exI[of _ k]) auto
  qed
  have a: "fst (scroll_loop v fuel d 0 (h 0) st) = Done \<longleftrightarrow> (\<exists>k<fuel. h (Suc k) = h k)"
  proof
    assume "fst (scroll_loop v fuel d 0 (h 0) st) = Done"
    then show "\<exists>k<fuel. h (Suc k) = h k" using stuck by fastforce
  next
    assume "\<exists>k<fuel. h (Suc k) = h k"
    from least[OF this] stop show "fst (scroll_loop v fuel d 0 (h 0) st) = Done" by fastforce
  qed
  have b: "fst (scroll_loop v fuel d 0 (h 0) st) = Stuck \<longleftrightarrow> (\<forall>k<fuel. h (Suc k) \<noteq> h k)"
  proof
    assume s: "fst (scroll_loop v fuel d 0 (h 0) st) = Stuck"
    show "\<forall>k<fuel. h (Suc k) \<noteq> h k"
    proof (rule ccontr)
      assume "\<not> (\<forall>k<fuel. h (Suc k) \<noteq> h k)"
      then have "\<exists>k<fuel. h (Suc k) = h k" by blast
      with a s show False by simp
    qed
  next
    assume "\<forall>k<fuel. h (Suc k) \<noteq> h k"
    from stuck[OF this] show "fst (scroll_loop v fuel d 0 (h 0) st) = Stuck" by simp
  qed
  have c: "scroll_loop (page [100, 250, 250] html) fuel' d 0 100 st =
              (Done, st\<lparr>trace := trace st @ [ScrollTo d, Measure d, ScrollTo d, Measure d]\<rparr>)"
    if "2 \<le> fuel'"
  proof -
    let ?h = "\<lambda>n. [100, 250, 250 :: int] ! n"
    have "scroll_loop (page [100, 250, 250] html) fuel' d 0 (?h 0) st =
      (Done, st\<lparr>trace := trace st @ concat (replicate (Suc 1) [ScrollTo d, Measure d])\<rparr>)"
    proof (rule scroll_loop_stops)
      show "\<forall>n\<le>1. v_scroll (page [100, 250, 250] html) (0 + n) = None"
        by (simp add: page_def)
      show "\<forall>n\<le>1. v_height (page [100, 250, 250] html) (Suc (0 + n)) = Inr (?h (Suc (0 + n)))"
        by (auto simp: page_def)
      show "?h (Suc (0 + 1)) = ?h (0 + 1)" by simp
      show "\<forall>j<1. ?h (Suc (0 + j)) \<noteq> ?h (0 + j)" by simp
      show "1 < fuel'" using that by simp
    qed
    then show ?thesis by (simp add: numeral_2_eq_2)
  qed
  show ?thesis using a b stop c by (auto simp: scrolls_def)
qed

text \<open>
  The page with measurements 100, 250, 250: two scrolls and the loop is done; with fuel for
  a single iteration it is still running. The item processed on that page scrolls twice.
\<close>

theorem scroll_to_exhaustion_witness:
  "fst (scroll_loop (page [100, 250, 250] []) 5 0 0 100 started) = Done
   \<and> scrolls (trace (snd (scroll_loop (page [100, 250, 250] []) 5 0 0 100 started))) = 2
   \<and> fst (scroll_loop (page [100, 250, 250] []) 1 0 0 100 started) = Stuck
   \<and> scrolls (trace (snd (process_item two_cities 5 (two_pages 0) ''Austin''
         (url_of (query_of Aslocation ''Austin'')) started))) = 2"
proof -
  let ?h = "\<lambda>n. if n = 0 then 100 else (250 :: int)"
  have a: "\<forall>n<2. v_scroll (page [100, 250, 250] []) n = None" by (simp add: page_def)
  have b: "\<forall>n\<le>2. v_height (page [100, 250, 250] []) n = Inr (?h n)"
    by (auto simp: page_def nth_Cons split: nat.splits)
  have a1: "\<forall>n<1. v_scroll (page [100, 250, 250] []) n = None" by (simp add: page_def)
  have b1: "\<forall>n\<le>1. v_height (page [100, 250, 250] []) n = Inr (?h n)"
    by (auto simp: page_def nth_Cons split: nat.splits)
  have c: "scrolls (trace started) = 0" by code_simp
  have e: "scrolls (trace (snd (process_item two_cities 5 (two_pages 0) ''Austin''
         (url_of (query_of Aslocation ''Austin'')) started))) = 2" by code_simp
  from scroll_to_exhaustion[OF a b, of 0 started 5 "[]"]
    scroll_to_exhaustion[OF a1 b1, of 0 started 5 "[]"] c e
  show ?thesis by (auto simp: less_Suc_eq numeral_2_eq_2)
qed

subsection \<open>One item, one iteration, the loop\<close>

lemma navigated_simps [simp]:
  "navigated [] = []"
  "navigated (a @ b) = navigated a @ navigated b"
  "navigated (e # tr) = nav_key e @ navigated tr"
  by (simp_all add: navigated_def)

lemma navigated_logs [simp]: "navigated (map (\<lambda>x. Log l (f x)) xs) = []"
  by (induction xs) simp_all

lemma navigated_scroll: "set evs \<subseteq> {ScrollTo d, Measure d} \<Longrightarrow> navigated evs = []"
  by (induction evs) auto

lemma live_append [simp]: "live (tr @ evs) = foldl live_step (live tr) evs"
  by (simp add: live_def)

lemma live_append_quiet:
  "\<forall>e \<in> set evs. (\<forall>d. e \<noteq> Started d \<and> e \<noteq> Quit d) \<Longrightarrow> foldl live_step L evs = L"
proof (induction evs arbitrary: L)
  case Nil
  then show ?case by simp
next
  case (Cons e evs)
  then have "live_step L e = L" by (cases e) auto
  with Cons show ?case by simp
qed

lemma lookup_contains: "lookup r key = Some v \<Longrightarrow> contains key r = Inr True"
  by (cases r) (force dest: map_of_SomeD)+

lemma lookup_setitem:
  "setitem key val r = Inr r' \<Longrightarrow> lookup r' k = (if k = key then Some val else lookup r k)"
  by (cases r) (auto simp: update_conv')

text \<open>What one pass through the body of the inner try does to the state.\<close>

lemma process_item_effect:
  assumes "process_item w fuel v key url st = (out, st')"
  shows "driver st' = driver st"
    and "set (navigated (trace st')) \<subseteq> insert key (set (navigated (trace st)))"
    and "out \<noteq> Done \<Longrightarrow> email_results st' = email_results st \<and> disk st' = disk st"
    and "out = Done \<Longrightarrow> \<exists>html. v_source v = Inr html
           \<and> setitem key (JList (map JStr (extract_emails html))) (email_results st)
               = Inr (email_results st')
           \<and> disk st' = (case v_write v of Written \<Rightarrow> Some (w_dumps w (email_results st'))
                          | NotOpened \<Rightarrow> disk st
                          | Truncated n \<Rightarrow> Some (take n (w_dumps w (email_results st'))))
           \<and> (\<exists>evs l m. trace st' = trace st @ evs @ [Write (email_results st'), Log l m])"
proof -
  show "driver st' = driver st"
    using assms unfolding process_item_def
    by (auto split: option.splits sum.splits prod.splits outcome.splits dest: scroll_loop_frame)
  show "set (navigated (trace st')) \<subseteq> insert key (set (navigated (trace st)))"
    using assms unfolding process_item_def
    by (auto split: option.splits sum.splits prod.splits outcome.splits
        dest!: scroll_loop_frame simp: navigated_scroll)
  show "out \<noteq> Done \<Longrightarrow> email_results st' = email_results st \<and> disk st' = disk st"
    using assms unfolding process_item_def
    by (auto split: option.splits sum.splits prod.splits outcome.splits dest: scroll_loop_frame)
  show "out = Done \<Longrightarrow> \<exists>html. v_source v = Inr html
           \<and> setitem key (JList (map JStr (extract_emails html))) (email_results st)
               = Inr (email_results st')
           \<and> disk st' = (case v_write v of Written \<Rightarrow> Some (w_dumps w (email_results st'))
                          | NotOpened \<Rightarrow> disk st
                          | Truncated n \<Rightarrow> Some (take n (w_dumps w (email_results st'))))
           \<and> (\<exists>evs l m. trace st' = trace st @ evs @ [Write (email_results st'), Log l m])"
    using assms unfolding process_item_def
    by (auto split: option.splits sum.splits prod.splits outcome.splits saving.splits
        dest!: scroll_loop_frame)
qed

lemma process_item_navigated:
  assumes "process_item w fuel v key url st = (out, st')"
  shows "navigated (trace st') = navigated (trace st) @ (if driver st = None then [] else [key])"
  using assms unfolding process_item_def
  by (auto split: option.splits sum.splits prod.splits outcome.splits
      dest!: scroll_loop_frame simp: navigated_scroll)

lemma process_item_live:
  assumes "process_item w fuel v key url st = (out, st')"
  shows "live (trace st') = live (trace st)"
proof -
  have "\<exists>evs. trace st' = trace st @ evs \<and> (\<forall>e \<in> set evs. (\<forall>d. e \<noteq> Started d \<and> e \<noteq> Quit d))"
    using assms unfolding process_item_def
    by (auto split: option.splits sum.splits prod.splits outcome.splits dest!: scroll_loop_frame)
  then show ?thesis by (auto simp: live_append_quiet)
qed

lemma initialize_driver_cases:
  "initialize_driver how st = (r, st') \<Longrightarrow>
     email_results st' = email_results st \<and> driver st' = driver st \<and> disk st' = disk st
     \<and> navigated (trace st') = navigated (trace st)
     \<and> (case r of
           Inl e \<Rightarrow> how = MissingExtension \<and> e = FileNotFoundError \<and> st' = st
         | Inr None \<Rightarrow> how = ChromeFails \<and> live (trace st') = live (trace st)
         | Inr (Some d) \<Rightarrow> how = ChromeStarts \<and> live (trace st') = insert d (live (trace st)))"
  by (auto simp: initialize_driver_def split: start.splits)

lemma recover_effect:
  assumes "recover w v key st = (f, st')"
  shows "email_results st' = email_results st"
    and "navigated (trace st') = navigated (trace st)"
    and "f \<noteq> Hang"
    and "f \<noteq> Return \<Longrightarrow> disk st' = disk st"
    and "f = Return \<Longrightarrow> driver st' = None \<and> v_restart v = ChromeFails
           \<and> disk st' = (case w_abort_write w of Written \<Rightarrow> Some (w_dumps w (email_results st))
                          | NotOpened \<Rightarrow> disk st
                          | Truncated n \<Rightarrow> Some (take n (w_dumps w (email_results st))))
           \<and> (\<exists>evs l m. trace st' = trace st @ evs @ [Write (email_results st), Log l m])"
    and "live (trace st) \<subseteq> set_option (driver st) \<Longrightarrow> live (trace st') \<subseteq> set_option (driver st')"
proof -
  note defs = recover_def Let_def initialize_driver_def
  note splits = option.splits sum.splits prod.splits start.splits if_splits
  show "email_results st' = email_results st"
    using assms unfolding defs by (auto split: splits)
  show "navigated (trace st') = navigated (trace st)"
    using assms unfolding defs by (auto split: splits)
  show "f \<noteq> Hang"
    using assms unfolding defs by (auto split: splits)
  show "f \<noteq> Return \<Longrightarrow> disk st' = disk st"
    using assms unfolding defs by (auto split: splits)
  show "f = Return \<Longrightarrow> driver st' = None \<and> v_restart v = ChromeFails
           \<and> disk st' = (case w_abort_write w of Written \<Rightarrow> Some (w_dumps w (email_results st))
                          | NotOpened \<Rightarrow> disk st
                          | Truncated n \<Rightarrow> Some (take n (w_dumps w (email_results st))))
           \<and> (\<exists>evs l m. trace st' = trace st @ evs @ [Write (email_results st), Log l m])"
    using assms unfolding defs by (auto split: splits saving.splits)
  show "live (trace st) \<subseteq> set_option (driver st) \<Longrightarrow> live (trace st') \<subseteq> set_option (driver st')"
    using assms unfolding defs by (auto split: splits)
qed

lemma finish_effect:
  assumes "finish w (f, st) = (res, st')"
  shows "email_results st' = email_results st"
    and "navigated (trace st') = navigated (trace st)"
    and "res = Returned r \<Longrightarrow> r = email_results st"
    and "res = Escaped e \<Longrightarrow>
           w_final_quit w = Some e \<or> (f = Raised KeyboardInterrupt \<and> e = KeyboardInterrupt)"
    and "(res = Hangs) = (f = Hang)"
  using assms unfolding finish_def Let_def
  by (auto split: flow.splits option.splits raised.splits)

lemma finish_return:
  "driver st = None \<Longrightarrow> finish w (Return, st) = (Returned (email_results st), st)"
  by (simp add: finish_def)

lemma finish_raised:
  assumes "finish w (Raised (Ordinary x), st) = (res, st')"
  shows "email_results st' = email_results st"
    and "\<exists>evs'. trace st' = trace st @ [Log ERROR ScrapingError] @ Write (email_results st) # evs'"
    and "navigated (trace st') = navigated (trace st)"
    and "disk st' = (case w_abort_write w of
                       Written \<Rightarrow> Some (w_dumps w (email_results st))
                     | NotOpened \<Rightarrow> disk st
                     | Truncated n \<Rightarrow> Some (take n (w_dumps w (email_results st))))"
    and "res = Returned (email_results st) \<or> (\<exists>e. res = Escaped e \<and> w_final_quit w = Some e)"
  using assms unfolding finish_def Let_def
  by (auto split: option.splits saving.splits)

text \<open>
  An invariant of the iterations is an invariant of the loop; so is an invariant of the
  iterations from position \<open>n\<close> on, for a loop that starts there or later.
\<close>

lemma for_loop_invariant_from:
  assumes step: "\<And>i item st f st'. n \<le> i \<Longrightarrow> I st \<Longrightarrow> for_body sc w fuel i item st = (f, st')
                   \<Longrightarrow> I st'"
  shows "n \<le> i \<Longrightarrow> I st \<Longrightarrow> for_loop sc w fuel i items st = (f, st') \<Longrightarrow> I st'"
proof (induction items arbitrary: i st)
  case Nil
  then show ?case by simp
next
  case (Cons item items)
  obtain g st1 where b: "for_body sc w fuel i item st = (g, st1)" by (cases "for_body sc w fuel i item st")
  have I1: "I st1" using step[OF Cons.prems(1,2) b] .
  show ?case
  proof (cases "g = Next")
    case True
    with b Cons.prems(3) have "for_loop sc w fuel (Suc i) items st1 = (f, st')" by simp
    moreover have "n \<le> Suc i" using Cons.prems(1) by simp
    ultimately show ?thesis using Cons.IH I1 by blast
  next
    case False
    with b Cons.prems(3) have "st' = st1" by (cases g) auto
    with I1 show ?thesis by simp
  qed
qed

lemma for_loop_invariant:
  assumes step: "\<And>i item st f st'. I st \<Longrightarrow> for_body sc w fuel i item st = (f, st') \<Longrightarrow> I st'"
  shows "I st \<Longrightarrow> for_loop sc w fuel i items st = (f, st') \<Longrightarrow> I st'"
proof (induction items arbitrary: i st)
  case Nil
  then show ?case by simp
next
  case (Cons item items)
  obtain g st1 where b: "for_body sc w fuel i item st = (g, st1)" by (cases "for_body sc w fuel i item st")
  have I1: "I st1" using step[OF Cons.prems(1) b] .
  show ?case
  proof (cases "g = Next")
    case True
    with b Cons.prems(2) have "for_loop sc w fuel (Suc i) items st1 = (f, st')" by simp
    from Cons.IH[OF I1 this] show ?thesis .
  next
    case False
    with b Cons.prems(2) have "st' = st1" by (cases g) auto
    with I1 show ?thesis by simp
  qed
qed

lemma for_loop_append:
  "for_loop sc w fuel i (xs @ ys) st =
     (case for_loop sc w fuel i xs st of
        (Next, st') \<Rightarrow> for_loop sc w fuel (i + length xs) ys st'
      | (f, st') \<Rightarrow> (f, st'))"
proof (induction xs arbitrary: i st)
  case Nil
  then show ?case by simp
next
  case (Cons x xs)
  show ?case
  proof (cases "for_body sc w fuel i x st")
    case (Pair g st1)
    then show ?thesis using Cons.IH[of "Suc i" st1]
      by (cases g) (auto split: prod.splits flow.splits)
  qed
qed

text \<open>
  A run over a work list is the run over the items before a position, the iteration at
  that position, and the run over the items after it.
\<close>

lemma for_loop_split:
  assumes "for_loop sc w fuel i pre st0 = (Next, st)"
    and "for_body sc w fuel (i + length pre) item st = (Next, st1)"
  shows "for_loop sc w fuel i (pre @ item # rest) st0 =
           for_loop sc w fuel (Suc (i + length pre)) rest st1"
  using assms by (simp add: for_loop_append)

lemma for_body_done:
  assumes "contains (key_of sc item) (email_results st) = Inr False"
    and "process_item w fuel (w_visit w i) (key_of sc item) (url_of (query_of sc item))
           (announce sc item st) = (Done, st1)"
  shows "for_body sc w fuel i item st = (Next, st1)"
  using assms by (simp add: for_body_def)

text \<open>What one iteration does.\<close>

lemma for_body_other_keys:
  assumes "for_body sc w fuel i item st = (f, st')" and "k \<noteq> key_of sc item"
  shows "lookup (email_results st') k = lookup (email_results st) k"
    and "k \<notin> set (navigated (trace st)) \<Longrightarrow> k \<notin> set (navigated (trace st'))"
proof -
  let ?key = "key_of sc item"
  let ?st0 = "announce sc item st"
  have "lookup (email_results st') k = lookup (email_results st) k
        \<and> (k \<notin> set (navigated (trace st)) \<longrightarrow> k \<notin> set (navigated (trace st')))"
  proof (cases "contains ?key (email_results st)")
    case (Inl e)
    with assms show ?thesis by (simp add: for_body_def)
  next
    case (Inr b)
    show ?thesis
    proof (cases b)
      case True
      with Inr assms show ?thesis by (auto simp: for_body_def)
    next
      case False
      obtain out st1 where p: "process_item w fuel (w_visit w i) ?key (url_of (query_of sc item)) ?st0
          = (out, st1)" by (cases "process_item w fuel (w_visit w i) ?key (url_of (query_of sc item)) ?st0")
      have 1: "lookup (email_results st1) k = lookup (email_results st) k"
      proof (cases "out = Done")
        case True
        with process_item_effect(4)[OF p] assms(2) show ?thesis
          by (auto dest: lookup_setitem[where k = k])
      next
        case False
        with process_item_effect(3)[OF p] show ?thesis by simp
      qed
      have 2: "k \<notin> set (navigated (trace st)) \<Longrightarrow> k \<notin> set (navigated (trace st1))"
        using process_item_effect(2)[OF p] assms(2) by auto
      show ?thesis
      proof (cases out)
        case Done
        with Inr False p assms(1) have "st' = st1" by (simp add: for_body_def)
        with 1 2 show ?thesis by simp
      next
        case Stuck
        with Inr False p assms(1) have "st' = st1" by (simp add: for_body_def)
        with 1 2 show ?thesis by simp
      next
        case (Failed e)
        show ?thesis
        proof (cases "e = Ordinary WebDriverException")
          case True
          with Failed Inr False p assms(1) have "recover w (w_visit w i) ?key st1 = (f, st')"
            by (simp add: for_body_def)
          from recover_effect(1,2)[OF this] 1 2 show ?thesis by simp
        next
          case False
          with Failed Inr \<open>\<not> b\<close> p assms(1) have "st' = st1" by (simp add: for_body_def)
          with 1 2 show ?thesis by simp
        qed
      qed
    qed
  qed
  then show "lookup (email_results st') k = lookup (email_results st) k"
    and "k \<notin> set (navigated (trace st)) \<Longrightarrow> k \<notin> set (navigated (trace st'))" by simp_all
qed

lemma for_body_skip:
  assumes "lookup (email_results st) (key_of sc item) = Some v"
  shows "for_body sc w fuel i item st = (Next, logging INFO (Skipping (key_of sc item)) st)"
  using lookup_contains[OF assms] by (simp add: for_body_def)

lemma for_body_navigated:
  assumes "for_body sc w fuel i item st = (f, st')"
  shows "\<exists>ns. navigated (trace st') = navigated (trace st) @ ns \<and> subseq ns [key_of sc item]"
proof (cases "contains (key_of sc item) (email_results st)")
  case (Inl e)
  with assms show ?thesis by (simp add: for_body_def)
next
  case (Inr b)
  show ?thesis
  proof (cases b)
    case True
    with Inr assms show ?thesis by (auto simp: for_body_def)
  next
    case False
    obtain out st1 where p: "process_item w fuel (w_visit w i) (key_of sc item)
        (url_of (query_of sc item)) (announce sc item st) = (out, st1)"
      by (cases "process_item w fuel (w_visit w i) (key_of sc item)
        (url_of (query_of sc item)) (announce sc item st)")
    have n1: "\<exists>ns. navigated (trace st1) = navigated (trace st) @ ns \<and> subseq ns [key_of sc item]"
      using process_item_navigated[OF p] by (cases "driver st") auto
    have "navigated (trace st') = navigated (trace st1)"
    proof (cases out)
      case Done
      with Inr False p assms show ?thesis by (simp add: for_body_def)
    next
      case Stuck
      with Inr False p assms show ?thesis by (simp add: for_body_def)
    next
      case (Failed e)
      show ?thesis
      proof (cases "e = Ordinary WebDriverException")
        case True
        with Failed Inr False p assms
        have "recover w (w_visit w i) (key_of sc item) st1 = (f, st')"
          by (simp add: for_body_def)
        from recover_effect(2)[OF this] show ?thesis .
      next
        case False
        with Failed Inr \<open>\<not> b\<close> p assms show ?thesis by (simp add: for_body_def)
      qed
    qed
    with n1 show ?thesis by simp
  qed
qed

lemma for_loop_navigated:
  "for_loop sc w fuel i items st = (f, st') \<Longrightarrow>
     \<exists>ns. navigated (trace st') = navigated (trace st) @ ns \<and> subseq ns (map (key_of sc) items)"
proof (induction items arbitrary: i st)
  case Nil
  then show ?case by simp
next
  case (Cons item items)
  obtain g st1 where b: "for_body sc w fuel i item st = (g, st1)"
    by (cases "for_body sc w fuel i item st")
  from for_body_navigated[OF b] obtain ns1 where
    n1: "navigated (trace st1) = navigated (trace st) @ ns1" "subseq ns1 [key_of sc item]" by blast
  show ?case
  proof (cases "g = Next")
    case True
    with b Cons.prems have "for_loop sc w fuel (Suc i) items st1 = (f, st')" by simp
    from Cons.IH[OF this] obtain ns2 where
      n2: "navigated (trace st') = navigated (trace st1) @ ns2" "subseq ns2 (map (key_of sc) items)"
      by blast
    have "subseq (ns1 @ ns2) ([key_of sc item] @ map (key_of sc) items)"
      using n1(2) n2(2) by (rule list_emb_append_mono)
    with n1(1) n2(1) show ?thesis by (intro exI[of _ "ns1 @ ns2"]) simp
  next
    case False
    with b Cons.prems have "st' = st1" by (cases g) auto
    moreover have "subseq (ns1 @ []) ([key_of sc item] @ map (key_of sc) items)"
      using n1(2) by (rule list_emb_append_mono) simp
    then have "subseq ns1 (key_of sc item # map (key_of sc) items)" by simp
    ultimately show ?thesis using n1(1) by (intro exI[of _ ns1]) simp
  qed
qed

lemma scrape_navigated:
  "\<exists>ns. navigated (trace (snd (scrape_google_emails sc w fuel items st))) = navigated (trace st) @ ns
        \<and> subseq ns (map (key_of sc) items)"
proof -
  obtain r0 st0 where l: "load_checkpoint w st = (r0, st0)" by (cases "load_checkpoint w st")
  have n0: "navigated (trace st0) = navigated (trace st)"
    using l by (auto simp: load_checkpoint_def read_checkpoint_def Let_def
        split: option.splits if_splits sum.splits)
  let ?st1 = "st0\<lparr>email_results := r0, driver := None\<rparr>"
  obtain f st2 where t: "try_body sc w fuel items ?st1 = (f, st2)"
    by (cases "try_body sc w fuel items ?st1")
  have "\<exists>ns. navigated (trace st2) = navigated (trace st) @ ns \<and> subseq ns (map (key_of sc) items)"
  proof (cases "initialize_driver (w_start w) ?st1")
    case (Pair r st')
    note i = initialize_driver_cases[OF Pair]
    show ?thesis
    proof (cases r)
      case (Inl e)
      with Pair t i n0 show ?thesis by (auto simp: try_body_def)
    next
      case (Inr od)
      show ?thesis
      proof (cases od)
        case None
        with Inr Pair t i n0 show ?thesis by (auto simp: try_body_def)
      next
        case (Some d)
        with Inr Pair t have "for_loop sc w fuel 0 items (st'\<lparr>driver := Some d\<rparr>) = (f, st2)"
          by (simp add: try_body_def)
        from for_loop_navigated[OF this] i n0 show ?thesis by simp
      qed
    qed
  qed
  moreover obtain res st3 where fi: "finish w (f, st2) = (res, st3)" by (cases "finish w (f, st2)")
  moreover have "scrape_google_emails sc w fuel items st = (res, st3)"
    using l t fi by (simp add: scrape_google_emails_def)
  ultimately show ?thesis using finish_effect(2)[OF fi] by simp
qed

subsection \<open>Idempotent skip\<close>

definition kept :: "string \<Rightarrow> json \<Rightarrow> state \<Rightarrow> bool" where
  "kept k v st = (lookup (email_results st) k = Some v \<and> k \<notin> set (navigated (trace st)))"

lemma for_body_kept:
  assumes "kept k v st" "for_body sc w fuel i item st = (f, st')"
  shows "kept k v st'"
proof (cases "k = key_of sc item")
  case True
  with assms show ?thesis by (auto simp: kept_def for_body_skip)
next
  case False
  with assms for_body_other_keys[OF assms(2) False] show ?thesis by (simp add: kept_def)
qed

lemma for_loop_kept:
  "kept k v st \<Longrightarrow> for_loop sc w fuel i items st = (f, st') \<Longrightarrow> kept k v st'"
  by (rule for_loop_invariant[where I = "kept k v"]) (auto intro: for_body_kept)

lemma try_body_kept:
  assumes "kept k v st" "try_body sc w fuel items st = (f, st')"
  shows "kept k v st'"
proof (cases "initialize_driver (w_start w) st")
  case (Pair r st1)
  note i = initialize_driver_cases[OF Pair]
  show ?thesis
  proof (cases r)
    case (Inl e)
    with Pair assms i show ?thesis by (auto simp: try_body_def kept_def)
  next
    case (Inr od)
    show ?thesis
    proof (cases od)
      case None
      with Inr Pair assms i show ?thesis by (auto simp: try_body_def kept_def)
    next
      case (Some d)
      with Inr Pair assms(2) have "for_loop sc w fuel 0 items (st1\<lparr>driver := Some d\<rparr>) = (f, st')"
        by (simp add: try_body_def)
      moreover have "kept k v (st1\<lparr>driver := Some d\<rparr>)" using assms(1) i by (simp add: kept_def)
      ultimately show ?thesis by (rule for_loop_kept[rotated])
    qed
  qed
qed

text \<open>
  Claim C2 (idempotent skip). For a key \<open>k\<close> of the loaded checkpoint, a run, however it
  ends and however long it has run, never calls \<open>driver.get\<close> for \<open>k\<close>, and the
  entry of \<open>k\<close> in the dictionary stays what it was, also in the dictionary returned.
\<close>

theorem idempotent_skip:
  assumes "lookup (fst (load_checkpoint w st)) k = Some v"
    and "k \<notin> set (navigated (trace st))"
  shows "k \<notin> set (navigated (trace (snd (scrape_google_emails sc w fuel items st))))
       \<and> lookup (email_results (snd (scrape_google_emails sc w fuel items st))) k = Some v
       \<and> (\<forall>r. fst (scrape_google_emails sc w fuel items st) = Returned r \<longrightarrow> lookup r k = Some v)"
proof -
  obtain r0 st0 where l: "load_checkpoint w st = (r0, st0)" by (cases "load_checkpoint w st")
  have n0: "navigated (trace st0) = navigated (trace st)"
    using l by (auto simp: load_checkpoint_def read_checkpoint_def Let_def
        split: option.splits if_splits sum.splits)
  let ?st1 = "st0\<lparr>email_results := r0, driver := None\<rparr>"
  have k1: "kept k v ?st1" using assms l n0 by (simp add: kept_def)
  obtain f st2 where t: "try_body sc w fuel items ?st1 = (f, st2)"
    by (cases "try_body sc w fuel items ?st1")
  have k2: "kept k v st2" using try_body_kept[OF k1 t] .
  obtain res st3 where fi: "finish w (f, st2) = (res, st3)" by (cases "finish w (f, st2)")
  have s: "scrape_google_emails sc w fuel items st = (res, st3)"
    using l t fi by (simp add: scrape_google_emails_def)
  show ?thesis
    using k2 finish_effect(1,2,3)[OF fi] unfolding s by (auto simp: kept_def)
qed

text \<open>
  A resumed run: the checkpoint holds Austin, and only Dallas is navigated.
\<close>

theorem idempotent_skip_witness:
  "lookup (fst (load_checkpoint two_cities resumed)) ''Austin'' = Some (JList [JStr ''a@x.com''])
   \<and> ''Austin'' \<notin> set (navigated (trace resumed))
   \<and> navigated (trace (snd (scrape_google_emails Aslocation two_cities 5 [''Austin'', ''Dallas''] resumed)))
       = [''Dallas'']
   \<and> ''Austin'' \<notin> set (navigated (trace (snd
         (scrape_google_emails Aslocation two_cities 5 [''Austin'', ''Dallas''] resumed))))
   \<and> lookup (email_results (snd
         (scrape_google_emails Aslocation two_cities 5 [''Austin'', ''Dallas''] resumed))) ''Austin''
       = Some (JList [JStr ''a@x.com''])"
proof -
  have 1: "lookup (fst (load_checkpoint two_cities resumed)) ''Austin'' = Some (JList [JStr ''a@x.com''])"
    by code_simp
  have 2: "''Austin'' \<notin> set (navigated (trace resumed))"
    by code_simp
  have 3: "navigated (trace (snd (scrape_google_emails Aslocation two_cities 5 [''Austin'', ''Dallas''] resumed)))
       = [''Dallas'']"
    by code_simp
  show ?thesis
    using idempotent_skip[OF 1 2, of Aslocation 5 "[''Austin'', ''Dallas'']"] 1 2 3 by simp
qed

subsection \<open>The frame of one item\<close>

text \<open>
  Claim C10 (frame of per-item processing), as the code has it. Processing an item with
  success changes no entry of the dictionary but the item's own, and hands the whole
  dictionary to the save that follows. What the file holds then depends on the write: when
  it succeeds, the dump of the whole dictionary, every other entry with it; when the file
  cannot be opened, what it held before; when the write fails after the file was opened, a
  beginning of the dump. More generally no iteration of the loop, however it ends, changes
  the entry of a key other than its item's.
\<close>

theorem per_item_frame:
  "(process_item w fuel v key url st = (Done, st') \<longrightarrow>
      (\<forall>k. k \<noteq> key \<longrightarrow> lookup (email_results st') k = lookup (email_results st) k)
      \<and> (\<exists>evs l m. trace st' = trace st @ evs @ [Write (email_results st'), Log l m])
      \<and> (v_write v = Written \<longrightarrow> disk st' = Some (w_dumps w (email_results st')))
      \<and> (v_write v = NotOpened \<longrightarrow> disk st' = disk st)
      \<and> (\<forall>n. v_write v = Truncated n \<longrightarrow>
            disk st' = Some (take n (w_dumps w (email_results st')))))
   \<and> (for_body sc w fuel i item st = (f, st2) \<longrightarrow>
      (\<forall>k. k \<noteq> key_of sc item \<longrightarrow> lookup (email_results st2) k = lookup (email_results st) k))"
proof -
  have "(\<forall>k. k \<noteq> key \<longrightarrow> lookup (email_results st') k = lookup (email_results st) k)
      \<and> (\<exists>evs l m. trace st' = trace st @ evs @ [Write (email_results st'), Log l m])
      \<and> (v_write v = Written \<longrightarrow> disk st' = Some (w_dumps w (email_results st')))
      \<and> (v_write v = NotOpened \<longrightarrow> disk st' = disk st)
      \<and> (\<forall>n. v_write v = Truncated n \<longrightarrow>
            disk st' = Some (take n (w_dumps w (email_results st'))))"
    if p: "process_item w fuel v key url st = (Done, st')"
  proof -
    from process_item_effect(4)[OF p] obtain html where
      h: "setitem key (JList (map JStr (extract_emails html))) (email_results st) = Inr (email_results st')"
        "disk st' = (case v_write v of Written \<Rightarrow> Some (w_dumps w (email_results st'))
                          | NotOpened \<Rightarrow> disk st
                          | Truncated n \<Rightarrow> Some (take n (w_dumps w (email_results st'))))"
        "\<exists>evs l m. trace st' = trace st @ evs @ [Write (email_results st'), Log l m]"
      by blast
    have "lookup (email_results st') k = lookup (email_results st) k" if "k \<noteq> key" for k
      using lookup_setitem[OF h(1), of k] that by simp
    with h(2,3) show ?thesis by auto
  qed
  moreover have "\<forall>k. k \<noteq> key_of sc item \<longrightarrow> lookup (email_results st2) k = lookup (email_results st) k"
    if "for_body sc w fuel i item st = (f, st2)"
    using for_body_other_keys(1)[OF that] by blast
  ultimately show ?thesis by blast
qed

text \<open>
  Dallas processed in a dictionary that holds Austin.
\<close>

theorem per_item_frame_witness:
  "fst (process_item two_cities 5 (two_pages 1) ''Dallas'' (url_of (query_of Aslocation ''Dallas''))
          (started\<lparr>email_results := austin\<rparr>)) = Done
   \<and> lookup (email_results (snd (process_item two_cities 5 (two_pages 1) ''Dallas''
          (url_of (query_of Aslocation ''Dallas'')) (started\<lparr>email_results := austin\<rparr>)))) ''Austin''
       = Some (JList [JStr ''a@x.com''])
   \<and> email_results (snd (process_item two_cities 5 (two_pages 1) ''Dallas''
          (url_of (query_of Aslocation ''Dallas'')) (started\<lparr>email_results := austin\<rparr>))) = austin_dallas
   \<and> disk (snd (process_item two_cities 5 (two_pages 1) ''Dallas''
          (url_of (query_of Aslocation ''Dallas'')) (started\<lparr>email_results := austin\<rparr>)))
       = Some (w_dumps two_cities austin_dallas)"
proof -
  let ?p = "process_item two_cities 5 (two_pages 1) ''Dallas''
          (url_of (query_of Aslocation ''Dallas'')) (started\<lparr>email_results := austin\<rparr>)"
  have 1: "fst ?p = Done" by code_simp
  then have 2: "?p = (Done, snd ?p)" by (metis prod.collapse)
  have 3: "email_results (snd ?p) = austin_dallas" by code_simp
  have 4: "v_write (two_pages 1) = Written" by code_simp
  have 5: "lookup (email_results (started\<lparr>email_results := austin\<rparr>)) ''Austin''
       = Some (JList [JStr ''a@x.com''])" by code_simp
  from per_item_frame[of two_cities 5 "two_pages 1" "''Dallas''"
      "url_of (query_of Aslocation ''Dallas'')" "started\<lparr>email_results := austin\<rparr>" "snd ?p"]
    1 2 3 4 5
  show ?thesis by auto
qed

text \<open>
  The claim as stated, with the other entries preserved in durable storage by each save,
  fails: \<open>save_checkpoint\<close> opens the file for writing, which empties it, and only logs an
  exception of the write that follows. Austin is in the file; Dallas is processed with
  success and its save fails after ten characters: the dictionary in memory holds both
  entries, the file holds a beginning of the dump, and reloading it gives the empty
  dictionary, without the entry of Austin.
\<close>

theorem truncated_write_loses_entries:
  "lookup (fst (load_checkpoint cut_off austin_saved)) ''Austin'' = Some (JList [JStr ''a@x.com''])
   \<and> fst (process_item cut_off 5 (w_visit cut_off 1) ''Dallas''
          (url_of (query_of Aslocation ''Dallas'')) austin_saved) = Done
   \<and> email_results (snd (process_item cut_off 5 (w_visit cut_off 1) ''Dallas''
          (url_of (query_of Aslocation ''Dallas'')) austin_saved)) = austin_dallas
   \<and> disk (snd (process_item cut_off 5 (w_visit cut_off 1) ''Dallas''
          (url_of (query_of Aslocation ''Dallas'')) austin_saved))
       = Some (take 10 (w_dumps cut_off austin_dallas))
   \<and> fst (load_checkpoint cut_off (snd (process_item cut_off 5 (w_visit cut_off 1) ''Dallas''
          (url_of (query_of Aslocation ''Dallas'')) austin_saved))) = JDict []
   \<and> lookup (fst (load_checkpoint cut_off (snd (process_item cut_off 5 (w_visit cut_off 1)
          ''Dallas'' (url_of (query_of Aslocation ''Dallas'')) austin_saved)))) ''Austin'' = None"
proof -
  let ?p = "process_item cut_off 5 (w_visit cut_off 1) ''Dallas''
          (url_of (query_of Aslocation ''Dallas'')) austin_saved"
  have "lookup (fst (load_checkpoint cut_off austin_saved)) ''Austin''
      = Some (JList [JStr ''a@x.com''])" by code_simp
  moreover have "fst ?p = Done" by code_simp
  moreover have "email_results (snd ?p) = austin_dallas" by code_simp
  moreover have "disk (snd ?p) = Some (take 10 (w_dumps cut_off austin_dallas))" by code_simp
  moreover have "fst (load_checkpoint cut_off (snd ?p)) = JDict []" by code_simp
  moreover have "lookup (fst (load_checkpoint cut_off (snd ?p))) ''Austin'' = None" by code_simp
  ultimately show ?thesis by (intro conjI)
qed

subsection \<open>Write-through\<close>

definition stored :: "world \<Rightarrow> string \<Rightarrow> json \<Rightarrow> state \<Rightarrow> bool" where
  "stored w k v st =
     (lookup (email_results st) k = Some v
      \<and> (\<exists>r. disk st = Some (w_dumps w r) \<and> lookup r k = Some v))"

text \<open>
  From position \<open>n\<close> of the work list on, no write fails after emptying the file.
\<close>

definition no_truncation :: "world \<Rightarrow> nat \<Rightarrow> bool" where
  "no_truncation w n =
     ((\<forall>i m. n \<le> i \<longrightarrow> v_write (w_visit w i) \<noteq> Truncated m)
      \<and> (\<forall>m. w_abort_write w \<noteq> Truncated m))"

lemma for_body_stored:
  assumes nt: "no_truncation w n" and ni: "n \<le> i" and s: "stored w k v st"
    and b: "for_body sc w fuel i item st = (f, st')"
  shows "stored w k v st'"
proof (cases "k = key_of sc item")
  case True
  with s b show ?thesis by (auto simp: stored_def for_body_skip)
next
  case ne: False
  have em: "lookup (email_results st') k = Some v"
    using for_body_other_keys(1)[OF b ne] s by (simp add: stored_def)
  from s obtain r0 where r0: "disk st = Some (w_dumps w r0)" "lookup r0 k = Some v"
    by (auto simp: stored_def)
  have "\<exists>r. disk st' = Some (w_dumps w r) \<and> lookup r k = Some v"
  proof (cases "contains (key_of sc item) (email_results st)")
    case (Inl e)
    with b r0 show ?thesis by (auto simp: for_body_def)
  next
    case (Inr c)
    show ?thesis
    proof (cases c)
      case True
      with Inr b r0 show ?thesis by (auto simp: for_body_def)
    next
      case False
      obtain out st1 where p: "process_item w fuel (w_visit w i) (key_of sc item)
          (url_of (query_of sc item)) (announce sc item st) = (out, st1)"
        by (cases "process_item w fuel (w_visit w i) (key_of sc item)
          (url_of (query_of sc item)) (announce sc item st)")
      have e1: "lookup (email_results st1) k = Some v"
      proof (cases "out = Done")
        case True
        with process_item_effect(4)[OF p] ne s show ?thesis
          by (auto simp: stored_def dest: lookup_setitem[where k = k])
      next
        case False
        with process_item_effect(3)[OF p] s show ?thesis by (simp add: stored_def)
      qed
      have d1: "\<exists>r. disk st1 = Some (w_dumps w r) \<and> lookup r k = Some v"
      proof (cases "out = Done")
        case True
        from process_item_effect(4)[OF p True] have
          "disk st1 = (case v_write (w_visit w i) of
              Written \<Rightarrow> Some (w_dumps w (email_results st1))
            | NotOpened \<Rightarrow> disk (announce sc item st)
            | Truncated n \<Rightarrow> Some (take n (w_dumps w (email_results st1))))" by blast
        with nt ni e1 r0 show ?thesis
          by (cases "v_write (w_visit w i)") (auto simp: no_truncation_def)
      next
        case False
        with process_item_effect(3)[OF p] r0 show ?thesis by auto
      qed
      show ?thesis
      proof (cases out)
        case Done
        with Inr False p b d1 show ?thesis by (simp add: for_body_def)
      next
        case Stuck
        with Inr False p b d1 show ?thesis by (simp add: for_body_def)
      next
        case (Failed e)
        show ?thesis
        proof (cases "e = Ordinary WebDriverException")
          case True
          with Failed Inr False p b
          have rc: "recover w (w_visit w i) (key_of sc item) st1 = (f, st')"
            by (simp add: for_body_def)
          show ?thesis
          proof (cases "f = Return")
            case True
            from recover_effect(5)[OF rc True] have
              "disk st' = (case w_abort_write w of
                  Written \<Rightarrow> Some (w_dumps w (email_results st1))
                | NotOpened \<Rightarrow> disk st1
                | Truncated n \<Rightarrow> Some (take n (w_dumps w (email_results st1))))" by blast
            with nt e1 d1 show ?thesis
              by (cases "w_abort_write w") (auto simp: no_truncation_def)
          next
            case False
            with recover_effect(4)[OF rc] d1 show ?thesis by simp
          qed
        next
          case False
          with Failed Inr \<open>\<not> c\<close> p b d1 show ?thesis by (simp add: for_body_def)
        qed
      qed
    qed
  qed
  with em show ?thesis by (simp add: stored_def)
qed

lemma for_loop_stored:
  "no_truncation w n \<Longrightarrow> n \<le> i \<Longrightarrow> stored w k v st
     \<Longrightarrow> for_loop sc w fuel i items st = (f, st') \<Longrightarrow> stored w k v st'"
  by (rule for_loop_invariant_from[where I = "stored w k v" and n = n])
    (auto intro: for_body_stored)

lemma finish_stored:
  assumes "no_truncation w n" "stored w k v st" "finish w (f, st) = (res, st')"
  shows "stored w k v st'"
  using assms unfolding finish_def Let_def stored_def no_truncation_def
  by (auto split: flow.splits option.splits saving.splits raised.splits)

text \<open>
  Claim C1 (write-through persistence), as the code has it. Let the item at position
  \<open>i\<close> be processed with success and the write that follows succeed, and let no write
  of the run after it fail after emptying the file. Then right after the item the file holds
  the dump of the dictionary, with the item's result under its key; and at the end of the
  run, whatever the later items did and however the run ended, the file holds the dump of a
  dictionary with the same result under that key, which \<open>load_checkpoint\<close> returns if
  \<open>json.loads\<close> inverts \<open>json.dump\<close> on it.
\<close>

theorem write_through:
  assumes "process_item w fuel (w_visit w i) key url st = (Done, st1)"
    and "v_write (w_visit w i) = Written"
    and "no_truncation w (Suc i)"
    and "finish w (for_loop sc w fuel (Suc i) rest st1) = (res, st2)"
  shows "\<exists>html r. v_source (w_visit w i) = Inr html
           \<and> lookup (email_results st1) key = Some (JList (map JStr (extract_emails html)))
           \<and> disk st1 = Some (w_dumps w (email_results st1))
           \<and> disk st2 = Some (w_dumps w r)
           \<and> lookup r key = Some (JList (map JStr (extract_emails html)))
           \<and> (w_readable w \<and> strip (w_dumps w r) \<noteq> [] \<and> w_loads w (strip (w_dumps w r)) = Inr r
                \<longrightarrow> fst (load_checkpoint w st2) = r)"
proof -
  from process_item_effect(4)[OF assms(1)] assms(2) obtain html where
    html: "v_source (w_visit w i) = Inr html"
    and set: "setitem key (JList (map JStr (extract_emails html))) (email_results st) = Inr (email_results st1)"
    and d1: "disk st1 = Some (w_dumps w (email_results st1))"
    by auto
  let ?v = "JList (map JStr (extract_emails html))"
  have l1: "lookup (email_results st1) key = Some ?v"
    using lookup_setitem[OF set, of key] by simp
  have s1: "stored w key ?v st1" using l1 d1 by (auto simp: stored_def)
  obtain f st' where lp: "for_loop sc w fuel (Suc i) rest st1 = (f, st')"
    by (cases "for_loop sc w fuel (Suc i) rest st1")
  have "stored w key ?v st'" using for_loop_stored[OF assms(3) order_refl s1 lp] .
  then have "stored w key ?v st2"
    using finish_stored[OF assms(3)] assms(4) lp by simp
  then obtain r where r: "disk st2 = Some (w_dumps w r)" "lookup r key = Some ?v"
    by (auto simp: stored_def)
  show ?thesis
    using html l1 d1 r reload[OF r(1)] by blast
qed

text \<open>
  Austin processed and written, then the rest of the run over Dallas.
\<close>

theorem write_through_witness:
  "fst (process_item two_cities 5 (w_visit two_cities 0) ''Austin''
          (url_of (query_of Aslocation ''Austin'')) started) = Done
   \<and> v_write (w_visit two_cities 0) = Written
   \<and> no_truncation two_cities (Suc 0)
   \<and> (\<exists>r. disk (snd (finish two_cities (for_loop Aslocation two_cities 5 (Suc 0) [''Dallas'']
              (snd (process_item two_cities 5 (w_visit two_cities 0) ''Austin''
                 (url_of (query_of Aslocation ''Austin'')) started)))))
            = Some (w_dumps two_cities r)
          \<and> lookup r ''Austin'' = Some (JList [JStr ''a@x.com'']))
   \<and> fst (load_checkpoint two_cities
        (snd (finish two_cities (for_loop Aslocation two_cities 5 (Suc 0) [''Dallas'']
              (snd (process_item two_cities 5 (w_visit two_cities 0) ''Austin''
                 (url_of (query_of Aslocation ''Austin'')) started)))))) = austin_dallas"
proof -
  let ?p = "process_item two_cities 5 (w_visit two_cities 0) ''Austin''
                 (url_of (query_of Aslocation ''Austin'')) started"
  let ?f = "finish two_cities (for_loop Aslocation two_cities 5 (Suc 0) [''Dallas''] (snd ?p))"
  have 1: "fst ?p = Done" by code_simp
  then have 2: "?p = (Done, snd ?p)" by (metis prod.collapse)
  have 3: "v_write (w_visit two_cities 0) = Written" by code_simp
  have 4: "no_truncation two_cities (Suc 0)"
    by (simp add: no_truncation_def two_cities_def calm_def two_pages_def page_def)
  have 5: "?f = (fst ?f, snd ?f)" by simp
  have 6: "v_source (w_visit two_cities 0) = Inr ''<p>write to a@x.com</p>''" by code_simp
  have 7: "extract_emails ''<p>write to a@x.com</p>'' = [''a@x.com'']" by code_simp
  have 8: "fst (load_checkpoint two_cities (snd ?f)) = austin_dallas" by code_simp
  from write_through[OF 2 3 4 5] 6 7 have
    "\<exists>r. disk (snd ?f) = Some (w_dumps two_cities r)
          \<and> lookup r ''Austin'' = Some (JList [JStr ''a@x.com''])"
    by auto
  with 1 3 4 8 show ?thesis by simp
qed

text \<open>
  The claim as stated, for every item that was navigated and extracted, fails when the
  checkpoint file cannot be written: \<open>save_checkpoint\<close> logs the error and the run goes
  on, so the item is in the dictionary returned and the store, reloaded, is empty.
\<close>

theorem write_failure_loses_item:
  "fst (scrape_google_emails Aslocation read_only 5 [''Austin''] fresh) = Returned austin
   \<and> Get 0 ''Austin'' (url_of (query_of Aslocation ''Austin''))
       \<in> set (trace (snd (scrape_google_emails Aslocation read_only 5 [''Austin''] fresh)))
   \<and> disk (snd (scrape_google_emails Aslocation read_only 5 [''Austin''] fresh)) = None
   \<and> fst (load_checkpoint read_only
        (snd (scrape_google_emails Aslocation read_only 5 [''Austin''] fresh))) = JDict []"
  by code_simp

subsection \<open>Retry after a failed navigation\<close>

text \<open>
  Claim C3 (retry-same-item ordering) fails on the code. The handler logs that it is
  retrying the item and then executes \<open>continue\<close>, which in a \<open>for\<close> loop takes the
  \<^emph>\<open>next\<close> item. In every run the keys navigated to, in order, are a subsequence of the
  keys of the work list: no position of the list is navigated twice. With the work list
  Austin, Dallas, a first navigation that fails and a new session that starts, the run
  navigates to Austin once, then to Dallas, and returns a dictionary without Austin, which
  is neither done nor skipped.
\<close>

theorem retry_moves_on:
  "(\<exists>ns. navigated (trace (snd (scrape_google_emails sc w fuel items st))) = navigated (trace st) @ ns
        \<and> subseq ns (map (key_of sc) items))
   \<and> navigated (trace (snd (scrape_google_emails Aslocation flaky 5 [''Austin'', ''Dallas''] fresh)))
       = [''Austin'', ''Dallas'']
   \<and> fst (scrape_google_emails Aslocation flaky 5 [''Austin'', ''Dallas''] fresh)
       = Returned (JDict [(''Dallas'', JList [])])
   \<and> Log INFO (Restarted ''Austin'') \<in> set (trace (snd
         (scrape_google_emails Aslocation flaky 5 [''Austin'', ''Dallas''] fresh)))"
proof -
  have "navigated (trace (snd (scrape_google_emails Aslocation flaky 5 [''Austin'', ''Dallas''] fresh)))
       = [''Austin'', ''Dallas'']" by code_simp
  moreover have "fst (scrape_google_emails Aslocation flaky 5 [''Austin'', ''Dallas''] fresh)
       = Returned (JDict [(''Dallas'', JList [])])" by code_simp
  moreover have "Log INFO (Restarted ''Austin'') \<in> set (trace (snd
         (scrape_google_emails Aslocation flaky 5 [''Austin'', ''Dallas''] fresh)))" by code_simp
  moreover note scrape_navigated[of sc w fuel items st]
  ultimately show ?thesis by (intro conjI)
qed

subsection \<open>Failure of the recovery\<close>

text \<open>
  A loop that has gone through the first items of the list goes on with the rest.
\<close>

lemma try_body_append:
  assumes "try_body sc w fuel pre s = (Next, st)"
  shows "try_body sc w fuel (pre @ xs) s = for_loop sc w fuel (length pre) xs st"
proof (cases "initialize_driver (w_start w) s")
  case (Pair r s1)
  show ?thesis
  proof (cases r)
    case (Inl e)
    with Pair assms show ?thesis by (simp add: try_body_def)
  next
    case (Inr od)
    show ?thesis
    proof (cases od)
      case None
      with Inr Pair assms show ?thesis by (simp add: try_body_def)
    next
      case (Some d)
      with Inr Pair assms have "for_loop sc w fuel 0 pre (s1\<lparr>driver := Some d\<rparr>) = (Next, st)"
        by (simp add: try_body_def)
      then have "for_loop sc w fuel 0 (pre @ xs) (s1\<lparr>driver := Some d\<rparr>)
          = for_loop sc w fuel (length pre) xs st"
        by (simp add: for_loop_append)
      with Inr Pair Some show ?thesis by (simp add: try_body_def)
    qed
  qed
qed

text \<open>
  How the process ends after the orchestrator has ended: with status 0, after at most one
  more line in the log, unless a \<open>KeyboardInterrupt\<close> left the orchestrator.
\<close>

lemma main_after:
  assumes "w_paths w" "w_items w \<noteq> []"
    and "scrape_google_emails sc w fuel (w_items w) st0 = (res, st2)" "res \<noteq> Hangs"
  shows "fst (main sc w fuel st0)
           = Some (if res = Escaped KeyboardInterrupt then Interrupted else Exit 0)"
    and "\<exists>evs. trace (snd (main sc w fuel st0)) = trace st2 @ evs \<and> length evs \<le> 1
           \<and> (\<forall>e \<in> set evs. \<exists>l m. e = Log l m)"
  using assms by (auto simp: main_def split: result.splits raised.splits sum.splits)

text \<open>
  Claim C4 (unrecoverable-failure abort), as the code has it. Let the run have gone
  through the items \<open>pre\<close> of the work list, let the navigation for the next item fail
  with a \<open>WebDriverException\<close>, the old session be quit, and the new session not start:
  Chrome does not start, or an extension file is missing. Then the run ends, and all it
  does after the failed navigation is this: it logs the failure and quits the session
  \<open>d\<close> it holds; when Chrome does not start, it logs that twice, saves the dictionary
  as it is and returns it; when an extension file is missing, the outer handler logs,
  saves the dictionary as it is, the \<open>finally\<close> clause quits the old session once more,
  and the dictionary is returned, unless this last \<open>quit()\<close> raises: then its exception
  leaves the orchestrator. Nothing is done for a further item: no query is logged, no page
  requested. The main program then writes at most one line to the log, and the process ends
  with status 0 (but for a \<open>KeyboardInterrupt\<close> raised by that last \<open>quit()\<close>).
\<close>

theorem recovery_failure_ends_run:
  assumes paths: "w_paths w"
    and items: "w_items w = pre @ item # rest"
    and load: "load_checkpoint w st0 = (r0, sta)"
    and before: "try_body sc w fuel pre (sta\<lparr>email_results := r0, driver := None\<rparr>) = (Next, st)"
    and c: "contains (key_of sc item) (email_results st) = Inr False"
    and p: "process_item w fuel (w_visit w (length pre)) (key_of sc item)
              (url_of (query_of sc item)) (announce sc item st)
              = (Failed (Ordinary WebDriverException), st1)"
    and q: "v_quit (w_visit w (length pre)) = None"
    and r: "v_restart (w_visit w (length pre)) \<noteq> ChromeStarts"
  shows "\<exists>d res st2.
       driver st = Some d
     \<and> scrape_google_emails sc w fuel (w_items w) st0 = (res, st2)
     \<and> email_results st2 = email_results st
     \<and> trace st2 =
         trace st1
         @ [Log ERROR (WebDriverError (key_of sc item)), Quit d]
         @ (if v_restart (w_visit w (length pre)) = ChromeFails
            then [StartFailed, Log ERROR DriverInitError, Log ERROR RestartFailed]
            else [Log ERROR ScrapingError])
         @ [Write (email_results st),
            Log (if w_abort_write w = Written then INFO else ERROR)
                (if w_abort_write w = Written then CheckpointSaved else CheckpointSaveError)]
         @ (if v_restart (w_visit w (length pre)) = ChromeFails then []
            else Quit d # (if w_final_quit w = None then [Log INFO BrowserClosed] else []))
     \<and> disk st2 = (case w_abort_write w of
                     Written \<Rightarrow> Some (w_dumps w (email_results st))
                   | NotOpened \<Rightarrow> disk st
                   | Truncated n \<Rightarrow> Some (take n (w_dumps w (email_results st))))
     \<and> res = (case w_final_quit w of
                None \<Rightarrow> Returned (email_results st)
              | Some e \<Rightarrow> if v_restart (w_visit w (length pre)) = ChromeFails
                          then Returned (email_results st) else Escaped e)
     \<and> fst (main sc w fuel st0)
         = Some (if res = Escaped KeyboardInterrupt then Interrupted else Exit 0)
     \<and> (\<exists>evs. trace (snd (main sc w fuel st0)) = trace st2 @ evs \<and> length evs \<le> 1
           \<and> (\<forall>e \<in> set evs. \<exists>l m. e = Log l m))"
proof -
  let ?v = "w_visit w (length pre)"
  let ?key = "key_of sc item"
  let ?s0 = "sta\<lparr>email_results := r0, driver := None\<rparr>"
  obtain d where d: "driver st = Some d"
  proof (cases "driver st")
    case None
    then have "process_item w fuel ?v ?key (url_of (query_of sc item)) (announce sc item st)
        = (Failed (Ordinary AttributeError), announce sc item st)"
      by (simp add: process_item_def)
    with p show ?thesis by simp
  next
    case (Some d)
    with that show ?thesis .
  qed
  have d1: "driver st1 = Some d" using process_item_effect(1)[OF p] d by simp
  have e1: "email_results st1 = email_results st" "disk st1 = disk st"
    using process_item_effect(3)[OF p] by simp_all
  have b: "for_body sc w fuel (length pre) item st = recover w ?v ?key st1"
    using c p by (simp add: for_body_def)
  have ne: "w_items w \<noteq> []" using items by simp
  have tb: "try_body sc w fuel (w_items w) ?s0 = for_loop sc w fuel (length pre) (item # rest) st"
    using try_body_append[OF before, of "item # rest"] items by simp
  have run: "scrape_google_emails sc w fuel (w_items w) st0
      = finish w (for_loop sc w fuel (length pre) (item # rest) st)"
    using load tb by (simp add: scrape_google_emails_def)
  show ?thesis
  proof (cases "v_restart ?v")
    case ChromeStarts
    with r show ?thesis by simp
  next
    case ChromeFails
    define st' where "st' = save_checkpoint w (w_abort_write w) (email_results st1)
        (logging ERROR RestartFailed
           ((logging ERROR DriverInitError
               (emit StartFailed (emit (Quit d) (logging ERROR (WebDriverError ?key) st1))))
            \<lparr>driver := None\<rparr>))"
    have rc: "recover w ?v ?key st1 = (Return, st')"
      using d1 q ChromeFails by (simp add: recover_def Let_def initialize_driver_def st'_def)
    have lp: "for_loop sc w fuel (length pre) (item # rest) st = (Return, st')"
      using b rc by simp
    have dn: "driver st' = None" by (simp add: st'_def)
    have er: "email_results st' = email_results st" using e1 by (simp add: st'_def)
    have sr: "scrape_google_emails sc w fuel (w_items w) st0 = (Returned (email_results st), st')"
      using run lp finish_return[OF dn, of w] er by simp
    have tr: "trace st' = trace st1
         @ [Log ERROR (WebDriverError ?key), Quit d]
         @ [StartFailed, Log ERROR DriverInitError, Log ERROR RestartFailed]
         @ [Write (email_results st),
            Log (if w_abort_write w = Written then INFO else ERROR)
                (if w_abort_write w = Written then CheckpointSaved else CheckpointSaveError)]
         @ []"
      using e1 by (simp add: st'_def)
    have dk: "disk st' = (case w_abort_write w of
                     Written \<Rightarrow> Some (w_dumps w (email_results st))
                   | NotOpened \<Rightarrow> disk st
                   | Truncated n \<Rightarrow> Some (take n (w_dumps w (email_results st))))"
      using e1 by (simp add: st'_def split: saving.splits)
    have rs: "Returned (email_results st) = (case w_final_quit w of
                None \<Rightarrow> Returned (email_results st)
              | Some e \<Rightarrow> if v_restart ?v = ChromeFails
                          then Returned (email_results st) else Escaped e)"
      using ChromeFails by (simp split: option.splits)
    have nh: "Returned (email_results st) \<noteq> Hangs" by simp
    note m = main_after[OF paths ne sr nh]
    show ?thesis
      apply (intro exI[of _ d] exI[of _ "Returned (email_results st)"] exI[of _ st'] conjI)
             apply (rule d)
            apply (rule sr)
           apply (rule er)
          apply (simp add: tr ChromeFails)
         apply (rule dk)
        apply (rule rs)
       apply (rule m(1))
      apply (rule m(2))
      done
  next
    case MissingExtension
    define st' where "st' = emit (Quit d) (logging ERROR (WebDriverError ?key) st1)"
    define st2 where "st2 = save_checkpoint w (w_abort_write w) (email_results st')
        (logging ERROR ScrapingError st')"
    define st3 where "st3 = (case w_final_quit w of
        None \<Rightarrow> logging INFO BrowserClosed (emit (Quit d) st2)
      | Some e \<Rightarrow> emit (Quit d) st2)"
    define res where "res = (case w_final_quit w of
        None \<Rightarrow> Returned (email_results st)
      | Some e \<Rightarrow> Escaped e)"
    have rc: "recover w ?v ?key st1 = (Raised (Ordinary FileNotFoundError), st')"
      using d1 q MissingExtension by (simp add: recover_def Let_def initialize_driver_def st'_def)
    have lp: "for_loop sc w fuel (length pre) (item # rest) st
        = (Raised (Ordinary FileNotFoundError), st')"
      using b rc by simp
    have er': "email_results st' = email_results st" using e1 by (simp add: st'_def)
    have fin: "finish w (Raised (Ordinary FileNotFoundError), st') = (res, st3)"
      using d1 er' by (simp add: finish_def Let_def st2_def st3_def res_def st'_def
          split: option.splits)
    have sr: "scrape_google_emails sc w fuel (w_items w) st0 = (res, st3)"
      using run lp fin by simp
    have er: "email_results st3 = email_results st"
      using er' by (simp add: st3_def st2_def split: option.splits)
    have tr: "trace st3 = trace st1
         @ [Log ERROR (WebDriverError ?key), Quit d]
         @ [Log ERROR ScrapingError]
         @ [Write (email_results st),
            Log (if w_abort_write w = Written then INFO else ERROR)
                (if w_abort_write w = Written then CheckpointSaved else CheckpointSaveError)]
         @ (Quit d # (if w_final_quit w = None then [Log INFO BrowserClosed] else []))"
      using e1 by (simp add: st3_def st2_def st'_def split: option.splits)
    have dk: "disk st3 = (case w_abort_write w of
                     Written \<Rightarrow> Some (w_dumps w (email_results st))
                   | NotOpened \<Rightarrow> disk st
                   | Truncated n \<Rightarrow> Some (take n (w_dumps w (email_results st))))"
      using e1 by (simp add: st3_def st2_def st'_def split: saving.splits option.splits)
    have rs: "res = (case w_final_quit w of
                None \<Rightarrow> Returned (email_results st)
              | Some e \<Rightarrow> if v_restart ?v = ChromeFails
                          then Returned (email_results st) else Escaped e)"
      using MissingExtension by (simp add: res_def split: option.splits)
    have nh: "res \<noteq> Hangs" by (simp add: res_def split: option.splits)
    have nc: "v_restart ?v \<noteq> ChromeFails" using MissingExtension by simp
    note m = main_after[OF paths ne sr nh]
    show ?thesis
      apply (intro exI[of _ d] exI[of _ res] exI[of _ st3] conjI)
             apply (rule d)
            apply (rule sr)
           apply (rule er)
          apply (simp add: tr MissingExtension)
         apply (rule dk)
        apply (rule rs)
       apply (rule m(1))
      apply (rule m(2))
      done
  qed
qed

text \<open>
  A navigation that fails and a session that does not restart: because Chrome does not
  start, and because an extension file is missing.
\<close>

theorem recovery_failure_ends_run_witness:
  "fst (scrape_google_emails Aslocation doomed 5 [''Austin'', ''Dallas''] fresh)
       = Returned (JDict [])
   \<and> trace (snd (scrape_google_emails Aslocation doomed 5 [''Austin'', ''Dallas''] fresh))
       = trace (snd (process_item doomed 5 (w_visit doomed 0) ''Austin''
            (url_of (query_of Aslocation ''Austin'')) (announce Aslocation ''Austin'' started)))
         @ [Log ERROR (WebDriverError ''Austin''), Quit 0, StartFailed,
            Log ERROR DriverInitError, Log ERROR RestartFailed, Write (JDict []),
            Log INFO CheckpointSaved]
   \<and> disk (snd (scrape_google_emails Aslocation doomed 5 [''Austin'', ''Dallas''] fresh))
       = Some (w_dumps doomed (JDict []))
   \<and> fst (main Aslocation doomed 5 fresh) = Some (Exit 0)
   \<and> fst (scrape_google_emails Aslocation stripped 5 [''Austin'', ''Dallas''] fresh)
       = Returned (JDict [])
   \<and> trace (snd (scrape_google_emails Aslocation stripped 5 [''Austin'', ''Dallas''] fresh))
       = trace (snd (process_item stripped 5 (w_visit stripped 0) ''Austin''
            (url_of (query_of Aslocation ''Austin'')) (announce Aslocation ''Austin'' started)))
         @ [Log ERROR (WebDriverError ''Austin''), Quit 0, Log ERROR ScrapingError,
            Write (JDict []), Log INFO CheckpointSaved, Quit 0, Log INFO BrowserClosed]
   \<and> fst (main Aslocation stripped 5 fresh) = Some (Exit 0)"
proof -
  let ?s0 = "fresh\<lparr>email_results := JDict [], driver := None\<rparr>"
  have k: "key_of Aslocation ''Austin'' = ''Austin''" by simp
  have c: "contains (key_of Aslocation ''Austin'') (email_results started) = Inr False"
    by code_simp
  have ds: "driver started = Some 0" "email_results started = JDict []" "disk started = None"
    by (simp_all add: started_def)
  have a: "fst (scrape_google_emails Aslocation doomed 5 [''Austin'', ''Dallas''] fresh)
       = Returned (JDict [])
   \<and> trace (snd (scrape_google_emails Aslocation doomed 5 [''Austin'', ''Dallas''] fresh))
       = trace (snd (process_item doomed 5 (w_visit doomed 0) ''Austin''
            (url_of (query_of Aslocation ''Austin'')) (announce Aslocation ''Austin'' started)))
         @ [Log ERROR (WebDriverError ''Austin''), Quit 0, StartFailed,
            Log ERROR DriverInitError, Log ERROR RestartFailed, Write (JDict []),
            Log INFO CheckpointSaved]
   \<and> disk (snd (scrape_google_emails Aslocation doomed 5 [''Austin'', ''Dallas''] fresh))
       = Some (w_dumps doomed (JDict []))
   \<and> fst (main Aslocation doomed 5 fresh) = Some (Exit 0)"
  proof -
    let ?p = "process_item doomed 5 (w_visit doomed (length ([] :: string list)))
        (key_of Aslocation ''Austin'') (url_of (query_of Aslocation ''Austin''))
        (announce Aslocation ''Austin'' started)"
    have paths: "w_paths doomed" by (simp add: doomed_def calm_def)
    have items: "w_items doomed = [] @ ''Austin'' # [''Dallas'']"
      by (simp add: doomed_def calm_def)
    have load: "load_checkpoint doomed fresh = (JDict [], fresh)" by code_simp
    have before: "try_body Aslocation doomed 5 [] ?s0 = (Next, started)" by code_simp
    have "fst ?p = Failed (Ordinary WebDriverException)" by code_simp
    then have p: "?p = (Failed (Ordinary WebDriverException), snd ?p)" by (metis prod.collapse)
    have q: "v_quit (w_visit doomed (length ([] :: string list))) = None" by code_simp
    have r: "v_restart (w_visit doomed (length ([] :: string list))) = ChromeFails" by code_simp
    then have r': "v_restart (w_visit doomed (length ([] :: string list))) \<noteq> ChromeStarts"
      by simp
    have w: "w_abort_write doomed = Written" "w_final_quit doomed = None"
      by (simp_all add: doomed_def calm_def)
    from recovery_failure_ends_run[OF paths items load before c p q r']
    obtain d res st2 where
      o: "driver started = Some d"
        "scrape_google_emails Aslocation doomed 5 (w_items doomed) fresh = (res, st2)"
        "trace st2 = trace (snd ?p)
           @ [Log ERROR (WebDriverError (key_of Aslocation ''Austin'')), Quit d]
           @ (if v_restart (w_visit doomed (length ([] :: string list))) = ChromeFails
              then [StartFailed, Log ERROR DriverInitError, Log ERROR RestartFailed]
              else [Log ERROR ScrapingError])
           @ [Write (email_results started),
              Log (if w_abort_write doomed = Written then INFO else ERROR)
                  (if w_abort_write doomed = Written then CheckpointSaved
                   else CheckpointSaveError)]
           @ (if v_restart (w_visit doomed (length ([] :: string list))) = ChromeFails then []
              else Quit d # (if w_final_quit doomed = None then [Log INFO BrowserClosed]
                             else []))"
        "disk st2 = (case w_abort_write doomed of
                     Written \<Rightarrow> Some (w_dumps doomed (email_results started))
                   | NotOpened \<Rightarrow> disk started
                   | Truncated n \<Rightarrow> Some (take n (w_dumps doomed (email_results started))))"
        "res = (case w_final_quit doomed of
                None \<Rightarrow> Returned (email_results started)
              | Some e \<Rightarrow> if v_restart (w_visit doomed (length ([] :: string list))) = ChromeFails
                          then Returned (email_results started) else Escaped e)"
        "fst (main Aslocation doomed 5 fresh)
           = Some (if res = Escaped KeyboardInterrupt then Interrupted else Exit 0)"
      by blast
    from o(1) ds have d0: "d = 0" by simp
    from o(5) w ds have rs: "res = Returned (JDict [])" by simp
    from o(2) items have sn: "scrape_google_emails Aslocation doomed 5 [''Austin'', ''Dallas''] fresh
        = (res, st2)" by simp
    show ?thesis
      using o(3,4,6) d0 rs r w ds by (simp add: sn)
  qed
  have b: "fst (scrape_google_emails Aslocation stripped 5 [''Austin'', ''Dallas''] fresh)
       = Returned (JDict [])
   \<and> trace (snd (scrape_google_emails Aslocation stripped 5 [''Austin'', ''Dallas''] fresh))
       = trace (snd (process_item stripped 5 (w_visit stripped 0) ''Austin''
            (url_of (query_of Aslocation ''Austin'')) (announce Aslocation ''Austin'' started)))
         @ [Log ERROR (WebDriverError ''Austin''), Quit 0, Log ERROR ScrapingError,
            Write (JDict []), Log INFO CheckpointSaved, Quit 0, Log INFO BrowserClosed]
   \<and> fst (main Aslocation stripped 5 fresh) = Some (Exit 0)"
  proof -
    let ?p = "process_item stripped 5 (w_visit stripped (length ([] :: string list)))
        (key_of Aslocation ''Austin'') (url_of (query_of Aslocation ''Austin''))
        (announce Aslocation ''Austin'' started)"
    have paths: "w_paths stripped" by (simp add: stripped_def calm_def)
    have items: "w_items stripped = [] @ ''Austin'' # [''Dallas'']"
      by (simp add: stripped_def calm_def)
    have load: "load_checkpoint stripped fresh = (JDict [], fresh)" by code_simp
    have before: "try_body Aslocation stripped 5 [] ?s0 = (Next, started)" by code_simp
    have "fst ?p = Failed (Ordinary WebDriverException)" by code_simp
    then have p: "?p = (Failed (Ordinary WebDriverException), snd ?p)" by (metis prod.collapse)
    have q: "v_quit (w_visit stripped (length ([] :: string list))) = None" by code_simp
    have r: "v_restart (w_visit stripped (length ([] :: string list))) = MissingExtension"
      by code_simp
    then have r': "v_restart (w_visit stripped (length ([] :: string list))) \<noteq> ChromeStarts"
      by simp
    have w: "w_abort_write stripped = Written" "w_final_quit stripped = None"
      by (simp_all add: stripped_def calm_def)
    from recovery_failure_ends_run[OF paths items load before c p q r']
    obtain d res st2 where
      o: "driver started = Some d"
        "scrape_google_emails Aslocation stripped 5 (w_items stripped) fresh = (res, st2)"
        "trace st2 = trace (snd ?p)
           @ [Log ERROR (WebDriverError (key_of Aslocation ''Austin'')), Quit d]
           @ (if v_restart (w_visit stripped (length ([] :: string list))) = ChromeFails
              then [StartFailed, Log ERROR DriverInitError, Log ERROR RestartFailed]
              else [Log ERROR ScrapingError])
           @ [Write (email_results started),
              Log (if w_abort_write stripped = Written then INFO else ERROR)
                  (if w_abort_write stripped = Written then CheckpointSaved
                   else CheckpointSaveError)]
           @ (if v_restart (w_visit stripped (length ([] :: string list))) = ChromeFails then []
              else Quit d # (if w_final_quit stripped = None then [Log INFO BrowserClosed]
                             else []))"
        "res = (case w_final_quit stripped of
                None \<Rightarrow> Returned (email_results started)
              | Some e \<Rightarrow> if v_restart (w_visit stripped (length ([] :: string list))) = ChromeFails
                          then Returned (email_results started) else Escaped e)"
        "fst (main Aslocation stripped 5 fresh)
           = Some (if res = Escaped KeyboardInterrupt then Interrupted else Exit 0)"
      by blast
    from o(1) ds have d0: "d = 0" by simp
    from o(4) w ds have rs: "res = Returned (JDict [])" by simp
    from o(2) items have sn: "scrape_google_emails Aslocation stripped 5 [''Austin'', ''Dallas''] fresh
        = (res, st2)" by simp
    show ?thesis
      using o(3,5) d0 rs r w ds by (simp add: sn)
  qed
  from a b show ?thesis by (simp only: simp_thms)
qed

text \<open>
  The claim as stated, with a non-success exit status, fails: after the failed restart
  \<open>scrape_google_emails\<close> returns the dictionary as after a complete run, and the main
  program logs its summary and ends with status 0.
\<close>

theorem recovery_failure_exits_with_success:
  "fst (main Aslocation doomed 5 fresh) = Some (Exit 0)
   \<and> Log ERROR RestartFailed \<in> set (trace (snd (main Aslocation doomed 5 fresh)))
   \<and> navigated (trace (snd (main Aslocation doomed 5 fresh))) = [''Austin'']"
  by code_simp

subsection \<open>Sessions\<close>

definition held :: "state \<Rightarrow> bool" where
  "held st = (live (trace st) \<subseteq> set_option (driver st))"

lemma for_body_held:
  assumes "held st" "for_body sc w fuel i item st = (f, st')"
  shows "held st'"
proof (cases "contains (key_of sc item) (email_results st)")
  case (Inl e)
  with assms show ?thesis by (simp add: for_body_def)
next
  case (Inr b)
  show ?thesis
  proof (cases b)
    case True
    with Inr assms show ?thesis by (auto simp: for_body_def held_def)
  next
    case False
    obtain out st1 where p: "process_item w fuel (w_visit w i) (key_of sc item)
        (url_of (query_of sc item)) (announce sc item st) = (out, st1)"
      by (cases "process_item w fuel (w_visit w i) (key_of sc item)
        (url_of (query_of sc item)) (announce sc item st)")
    have h1: "held st1"
      using assms(1) process_item_live[OF p] process_item_effect(1)[OF p] by (simp add: held_def)
    show ?thesis
    proof (cases out)
      case Done
      with Inr False p assms(2) h1 show ?thesis by (simp add: for_body_def)
    next
      case Stuck
      with Inr False p assms(2) h1 show ?thesis by (simp add: for_body_def)
    next
      case (Failed e)
      show ?thesis
      proof (cases "e = Ordinary WebDriverException")
        case True
        with Failed Inr False p assms(2)
        have "recover w (w_visit w i) (key_of sc item) st1 = (f, st')"
          by (simp add: for_body_def)
        from recover_effect(6)[OF this] h1 show ?thesis by (simp add: held_def)
      next
        case False
        with Failed Inr \<open>\<not> b\<close> p assms(2) h1 show ?thesis by (simp add: for_body_def)
      qed
    qed
  qed
qed

lemma for_loop_held:
  "held st \<Longrightarrow> for_loop sc w fuel i items st = (f, st') \<Longrightarrow> held st'"
  by (rule for_loop_invariant[where I = held]) (auto intro: for_body_held)

lemma try_body_held:
  assumes "live (trace st) = {}" "try_body sc w fuel items st = (f, st')"
  shows "held st'"
proof (cases "initialize_driver (w_start w) st")
  case (Pair r st1)
  note i = initialize_driver_cases[OF Pair]
  show ?thesis
  proof (cases r)
    case (Inl e)
    with Pair assms i show ?thesis by (auto simp: try_body_def held_def)
  next
    case (Inr od)
    show ?thesis
    proof (cases od)
      case None
      with Inr Pair assms i show ?thesis by (auto simp: try_body_def held_def)
    next
      case (Some d)
      with Inr Pair assms(2) have "for_loop sc w fuel 0 items (st1\<lparr>driver := Some d\<rparr>) = (f, st')"
        by (simp add: try_body_def)
      moreover have "held (st1\<lparr>driver := Some d\<rparr>)"
        using assms(1) i Inr Some by (simp add: held_def)
      ultimately show ?thesis by (rule for_loop_held[rotated])
    qed
  qed
qed

lemma finish_release:
  assumes "held st" "finish w (f, st) = (res, st')"
  shows "res \<noteq> Hangs \<Longrightarrow> live (trace st') = {}"
    and "f \<noteq> Hang \<Longrightarrow> driver st \<noteq> None \<Longrightarrow> w_final_quit w = Some e \<Longrightarrow> res = Escaped e"
    and "res = Escaped e \<Longrightarrow>
           (driver st \<noteq> None \<and> w_final_quit w = Some e) \<or> e = KeyboardInterrupt"
    and "driver st' = driver st"
    and "f \<noteq> Hang \<Longrightarrow> driver st = None \<or> w_final_quit w = None \<Longrightarrow>
           res = (if f = Raised KeyboardInterrupt then Escaped KeyboardInterrupt
                  else Returned (email_results st'))"
  using assms unfolding finish_def Let_def held_def
  by (auto split: flow.splits option.splits raised.splits)

text \<open>
  Claim C9 (session release on every exit path), as the code has it. When a run ends,
  by return or by exception, a \<open>KeyboardInterrupt\<close> included, \<open>quit()\<close> has been called,
  after its start, on every session the run started. An exception raised by the
  \<open>quit()\<close> of the \<open>finally\<close> clause is not caught: whenever a session is held at the end
  and that \<open>quit()\<close> raises, its exception reaches the caller. Otherwise the run returns
  the dictionary, unless a \<open>KeyboardInterrupt\<close> ended the \<open>try\<close> block: no handler of
  the run catches it, and it reaches the caller after the \<open>finally\<close> clause. No other
  exception leaves the run. Here \<open>f\<close> is the way the \<open>try\<close> block ends.
\<close>

theorem session_released:
  assumes "live (trace st) = {}"
    and "load_checkpoint w st = (r0, st0)"
    and "try_body sc w fuel items (st0\<lparr>email_results := r0, driver := None\<rparr>) = (f, st2)"
    and "scrape_google_emails sc w fuel items st = (res, st')"
    and "res \<noteq> Hangs"
  shows "live (trace st') = {}
       \<and> (\<forall>e. driver st' \<noteq> None \<and> w_final_quit w = Some e \<longrightarrow> res = Escaped e)
       \<and> (driver st' = None \<or> w_final_quit w = None \<longrightarrow>
            res = (if f = Raised KeyboardInterrupt then Escaped KeyboardInterrupt
                   else Returned (email_results st')))
       \<and> (\<forall>e. res = Escaped e \<longrightarrow>
              (driver st' \<noteq> None \<and> w_final_quit w = Some e) \<or> e = KeyboardInterrupt)"
proof -
  note l = assms(2)
  from load_checkpoint_trace[OF l] obtain evs where
    evs: "trace st0 = trace st @ evs" "\<forall>e \<in> set evs. \<exists>l m. e = Log l m" by blast
  then have "foldl live_step (live (trace st)) evs = live (trace st)"
    by (intro live_append_quiet) auto
  with evs have l0: "live (trace st0) = {}" using assms(1) by simp
  let ?st1 = "st0\<lparr>email_results := r0, driver := None\<rparr>"
  note t = assms(3)
  have h2: "held st2" using try_body_held[OF _ t] l0 by simp
  have fi: "finish w (f, st2) = (res, st')"
    using l t assms(4) by (simp add: scrape_google_emails_def)
  have nh: "f \<noteq> Hang" using finish_effect(5)[OF fi] assms(5) by simp
  note fr = finish_release[OF h2 fi]
  have "live (trace st') = {}" using fr(1) assms(5) by simp
  moreover have "res = Escaped e" if "driver st' \<noteq> None \<and> w_final_quit w = Some e" for e
    using fr(2)[OF nh, of e] that fr(4) by simp
  moreover have "res = (if f = Raised KeyboardInterrupt then Escaped KeyboardInterrupt
                   else Returned (email_results st'))"
    if "driver st' = None \<or> w_final_quit w = None"
    using fr(5)[OF nh] that fr(4) by simp
  moreover have "(driver st' \<noteq> None \<and> w_final_quit w = Some e) \<or> e = KeyboardInterrupt"
    if "res = Escaped e" for e
    using fr(3)[OF that] fr(4) by simp
  ultimately show ?thesis by blast
qed

text \<open>
  The run in which the first navigation fails and a new session starts: each session
  started is quit before the run returns. And the run in which the second navigation is
  interrupted: the interrupt leaves the run, after the session was quit.
\<close>

theorem session_released_witness:
  "live (trace fresh) = {}
   \<and> fst (scrape_google_emails Aslocation flaky 5 [''Austin'', ''Dallas''] fresh)
       = Returned (JDict [(''Dallas'', JList [])])
   \<and> live (trace (snd (scrape_google_emails Aslocation flaky 5 [''Austin'', ''Dallas''] fresh))) = {}
   \<and> filter (\<lambda>e. case e of Started d \<Rightarrow> True | Quit d \<Rightarrow> True | _ \<Rightarrow> False)
        (trace (snd (scrape_google_emails Aslocation flaky 5 [''Austin'', ''Dallas''] fresh)))
       = [Started 0, Quit 0, Started 6, Quit 6]
   \<and> fst (try_body Aslocation interrupted 5 [''Austin'', ''Dallas'']
          (fresh\<lparr>email_results := JDict [], driver := None\<rparr>)) = Raised KeyboardInterrupt
   \<and> fst (scrape_google_emails Aslocation interrupted 5 [''Austin'', ''Dallas''] fresh)
       = Escaped KeyboardInterrupt
   \<and> live (trace (snd (scrape_google_emails Aslocation interrupted 5 [''Austin'', ''Dallas'']
        fresh))) = {}
   \<and> filter (\<lambda>e. case e of Started d \<Rightarrow> True | Quit d \<Rightarrow> True | _ \<Rightarrow> False)
        (trace (snd (scrape_google_emails Aslocation interrupted 5 [''Austin'', ''Dallas'']
        fresh)))
       = [Started 0, Quit 0]"
proof -
  let ?s0 = "fresh\<lparr>email_results := JDict [], driver := None\<rparr>"
  let ?tf = "try_body Aslocation flaky 5 [''Austin'', ''Dallas''] ?s0"
  let ?ti = "try_body Aslocation interrupted 5 [''Austin'', ''Dallas''] ?s0"
  let ?rf = "scrape_google_emails Aslocation flaky 5 [''Austin'', ''Dallas''] fresh"
  let ?ri = "scrape_google_emails Aslocation interrupted 5 [''Austin'', ''Dallas''] fresh"
  have 1: "live (trace fresh) = {}" by code_simp
  have lf: "load_checkpoint flaky fresh = (JDict [], fresh)" by code_simp
  have li: "load_checkpoint interrupted fresh = (JDict [], fresh)" by code_simp
  have tf: "?tf = (fst ?tf, snd ?tf)" by simp
  have ti: "?ti = (fst ?ti, snd ?ti)" by simp
  have ff: "fst ?tf = Next" by code_simp
  have fi: "fst ?ti = Raised KeyboardInterrupt" by code_simp
  have 2: "fst ?rf = Returned (JDict [(''Dallas'', JList [])])" by code_simp
  have 3: "filter (\<lambda>e. case e of Started d \<Rightarrow> True | Quit d \<Rightarrow> True | _ \<Rightarrow> False)
        (trace (snd ?rf)) = [Started 0, Quit 0, Started 6, Quit 6]" by code_simp
  have 4: "w_final_quit interrupted = None" by (simp add: interrupted_def calm_def)
  have 5: "filter (\<lambda>e. case e of Started d \<Rightarrow> True | Quit d \<Rightarrow> True | _ \<Rightarrow> False)
        (trace (snd ?ri)) = [Started 0, Quit 0]" by code_simp
  have 6: "fst ?ri \<noteq> Hangs" by code_simp
  have a: "?rf = (Returned (JDict [(''Dallas'', JList [])]), snd ?rf)"
    using 2 by (metis prod.collapse)
  have b: "?ri = (fst ?ri, snd ?ri)" by simp
  have nh: "Returned (JDict [(''Dallas'', JList [])]) \<noteq> Hangs" by simp
  note x = session_released[OF 1 lf tf a nh]
  note y = session_released[OF 1 li ti b 6]
  from y 4 fi have 7: "fst ?ri = Escaped KeyboardInterrupt" by simp
  from x y 1 2 3 5 7 fi show ?thesis by simp
qed

text \<open>
  The claim as stated, with a failure of teardown never propagated, fails: when the
  \<open>quit()\<close> of the \<open>finally\<close> clause raises, the exception leaves
  \<open>scrape_google_emails\<close>.
\<close>

theorem teardown_failure_escapes:
  "fst (scrape_google_emails Aslocation stubborn 5 [''Austin''] fresh)
     = Escaped (Ordinary OtherException)"
  by code_simp

end
